theory Spec2Isabelle
  imports Main "HOL-Library.Word"
begin

section \<open>CCOS disk utilities: the tree walker, lister, extractor, locator and patcher of dumper.c\<close>

text \<open>
  The development follows \<^verbatim>\<open>dumper.c\<close>. The binary decoder of the image
  (\<^verbatim>\<open>ccos_image.h\<close>) is not part of that file: its functions are the fields of
  the record \<open>codec\<close>, a parameter of every definition below. The answers of the C
  library are the record \<open>sys\<close>; the files and the standard output are the record
  \<open>host\<close>, passed through every function that touches them. Diagnostics on
  standard error and the \<^verbatim>\<open>TRACE\<close> output do not influence control flow; where
  two failures of one function differ only by their message, the message is the
  constructor of an error value.
\<close>

subsection \<open>Data\<close>

type_synonym block = "16 word"
type_synonym byte = "8 word"
type_synonym image = "byte list"
type_synonym short_string = "byte list"

text \<open>\<^verbatim>\<open>version_t\<close>: three components, each printed with \<^verbatim>\<open>%u\<close>.\<close>

record version_t =
  major :: "8 word"
  minor :: "8 word"
  patch :: "8 word"

text \<open>\<^verbatim>\<open>ccos_date_t\<close>: the fields that dumper.c prints.\<close>

record ccos_date_t =
  year :: "16 word"
  month :: "8 word"
  day :: "8 word"

text \<open>
  The functions of \<^verbatim>\<open>ccos_image.h\<close> that dumper.c calls. A function that
  reports failure by \<^verbatim>\<open>-1\<close> or \<^verbatim>\<open>NULL\<close> returns \<open>None\<close>; an output
  array with its count is a list. \<open>ccos_get_block_data\<close> yields the bytes between
  \<^verbatim>\<open>data_start\<close> and \<^verbatim>\<open>data_start + data_size\<close>. \<open>ccos_replace_file\<close>
  yields its return code and the image buffer as it leaves it.
\<close>

record codec =
  ccos_get_dir_contents :: "block \<Rightarrow> image \<Rightarrow> block list option"
  ccos_is_dir :: "block \<Rightarrow> image \<Rightarrow> bool"
  ccos_get_file_name :: "block \<Rightarrow> image \<Rightarrow> short_string"
  ccos_parse_file_name :: "short_string \<Rightarrow> (string \<times> string) option"
  ccos_short_string_to_string :: "short_string \<Rightarrow> string option"
  ccos_get_file_size :: "block \<Rightarrow> image \<Rightarrow> 32 word"
  ccos_get_file_version :: "block \<Rightarrow> image \<Rightarrow> version_t"
  ccos_get_creation_date :: "block \<Rightarrow> image \<Rightarrow> ccos_date_t"
  ccos_get_mod_date :: "block \<Rightarrow> image \<Rightarrow> ccos_date_t"
  ccos_get_exp_date :: "block \<Rightarrow> image \<Rightarrow> ccos_date_t"
  ccos_get_file_blocks :: "block \<Rightarrow> image \<Rightarrow> block list option"
  ccos_get_block_data :: "block \<Rightarrow> image \<Rightarrow> byte list option"
  ccos_replace_file :: "block \<Rightarrow> byte list \<Rightarrow> image \<Rightarrow> int \<times> image"

text \<open>
  What the C library answers and no code of dumper.c changes: \<open>calloc_ok n\<close> tells
  whether an allocation of \<open>n\<close> bytes succeeds, \<open>fopen_wb_ok p\<close> whether \<open>p\<close> can
  be opened for writing, and \<open>fread_count p n\<close> is the number of bytes that reading
  \<open>n\<close> bytes of \<open>p\<close> delivers. Output streams are buffered, and how the library
  uses the buffer is its own choice: \<open>fwrite_transmits k n\<close> is the number of bytes
  that it passes on to the file during a call of \<^verbatim>\<open>fwrite\<close> with \<open>n\<close> bytes on
  a stream that holds \<open>k\<close> bytes in its buffer.
\<close>

record sys =
  calloc_ok :: "nat \<Rightarrow> bool"
  fopen_wb_ok :: "string \<Rightarrow> bool"
  fread_count :: "string \<Rightarrow> nat \<Rightarrow> nat"
  fwrite_transmits :: "nat \<Rightarrow> nat \<Rightarrow> nat"

text \<open>
  The host state that dumper.c changes: \<open>files\<close> are the regular files by path,
  with the bytes that have reached them, \<open>free_space\<close> is the number of bytes that
  the host can still store, and \<open>stdout\<close> is everything printed so far.
\<close>

record host =
  files :: "string \<rightharpoonup> byte list"
  free_space :: nat
  stdout :: string

text \<open>\<^verbatim>\<open>PATH_MAX\<close> of \<^verbatim>\<open>limits.h\<close> (Linux).\<close>

definition PATH_MAX :: nat where
  "PATH_MAX = 4096"

text \<open>\<^verbatim>\<open>snprintf(buf, n, ...)\<close> stores at most \<open>n - 1\<close> characters of the formatted text.\<close>

definition snprintf :: "nat \<Rightarrow> string \<Rightarrow> string" where
  "snprintf n s = take (n - 1) s"

text \<open>\<^verbatim>\<open>traverse_callback_result_t\<close>, with the values the enum gives its members.\<close>

definition RESULT_OK :: int where "RESULT_OK = 1"
definition RESULT_ERROR :: int where "RESULT_ERROR = 2"
definition RESULT_BREAK :: int where "RESULT_BREAK = 3"

subsection \<open>The tree walker\<close>

text \<open>
  A visitor receives the block, the image, the directory path, the level, the user
  argument (\<^verbatim>\<open>void* arg\<close>) and the host, and returns its verdict with the
  argument and the host as it leaves them. A \<^verbatim>\<open>NULL\<close> visitor is \<open>None\<close>.
  The verbosity flag only switches the tracing and is left out.
\<close>

type_synonym 'a callback = "block \<Rightarrow> image \<Rightarrow> string \<Rightarrow> nat \<Rightarrow> 'a \<Rightarrow> host \<Rightarrow> int \<times> 'a \<times> host"

text \<open>One invocation of a visitor, as the walker makes it.\<close>

datatype event = OnFile block string nat | OnDir block string nat

text \<open>
  The state of a walk: the user argument, the host, and \<open>calls\<close>, the invocations of
  the visitors so far in the order they were made (a log kept by the model only).
\<close>

record 'a walk_state =
  arg :: 'a
  env :: host
  calls :: "event list"

fun ev_block :: "event \<Rightarrow> block" where
  "ev_block (OnFile b d l) = b"
| "ev_block (OnDir b d l) = b"

fun ev_dirname :: "event \<Rightarrow> string" where
  "ev_dirname (OnFile b d l) = d"
| "ev_dirname (OnDir b d l) = d"

fun ev_level :: "event \<Rightarrow> nat" where
  "ev_level (OnFile b d l) = l"
| "ev_level (OnDir b d l) = l"

text \<open>
  Invoking a visitor with the arguments \<open>ev\<close> records; a \<^verbatim>\<open>NULL\<close> visitor is
  not called, which the walker treats like \<open>RESULT_OK\<close>.
\<close>

definition invoke :: "'a callback option \<Rightarrow> image \<Rightarrow> event \<Rightarrow> 'a walk_state \<Rightarrow> int \<times> 'a walk_state" where
  "invoke cb data ev s =
     (case cb of
        None \<Rightarrow> (RESULT_OK, s)
      | Some f \<Rightarrow>
          (case f (ev_block ev) data (ev_dirname ev) (ev_level ev) (arg s) (env s) of
             (res, a, h) \<Rightarrow> (res, \<lparr>arg = a, env = h, calls = calls s @ [ev]\<rparr>)))"

text \<open>
  \<^verbatim>\<open>traverse_ccos_image\<close> (lines 48 to 126). The recursion of the source has no bound (a cyclic
  image recurses for ever), so the model takes the depth it may still descend as its
  first argument and returns \<open>None\<close> when that is used up. \<open>traverse_entries\<close> is the
  \<^verbatim>\<open>for\<close> loop from its current index on: its list argument holds the entries
  \<^verbatim>\<open>root_dir_files[i..]\<close>. The level is an \<^verbatim>\<open>int\<close> that starts at 0 and
  only grows by one per nested call.
\<close>

fun traverse_ccos_image :: "nat \<Rightarrow> sys \<Rightarrow> codec \<Rightarrow> block \<Rightarrow> image \<Rightarrow> string \<Rightarrow> nat
    \<Rightarrow> 'a callback option \<Rightarrow> 'a callback option \<Rightarrow> 'a walk_state \<Rightarrow> (int \<times> 'a walk_state) option"
and traverse_entries :: "nat \<Rightarrow> sys \<Rightarrow> codec \<Rightarrow> block list \<Rightarrow> image \<Rightarrow> string \<Rightarrow> nat
    \<Rightarrow> 'a callback option \<Rightarrow> 'a callback option \<Rightarrow> 'a walk_state \<Rightarrow> (int \<times> 'a walk_state) option"
where
  "traverse_ccos_image 0 sy cdc b data dirname level on_file on_dir s = None"
| "traverse_ccos_image (Suc fuel) sy cdc b data dirname level on_file on_dir s =
     (case ccos_get_dir_contents cdc b data of
        None \<Rightarrow> Some (- 1, s)
      | Some root_dir_files \<Rightarrow>
          traverse_entries fuel sy cdc root_dir_files data dirname level on_file on_dir s)"
| "traverse_entries fuel sy cdc [] data dirname level on_file on_dir s = Some (0, s)"
| "traverse_entries fuel sy cdc (f # fs) data dirname level on_file on_dir s =
     (if ccos_is_dir cdc f data then
        (case ccos_parse_file_name cdc (ccos_get_file_name cdc f data) of
           None \<Rightarrow> Some (- 1, s)
         | Some (subdir_name, ty) \<Rightarrow>
             if \<not> calloc_ok sy PATH_MAX then Some (- 1, s)
             else
               (case invoke on_dir data (OnDir f dirname level) s of
                  (res, s1) \<Rightarrow>
                    if res \<noteq> RESULT_OK then
                      (if res = RESULT_ERROR then Some (- 1, s1) else Some (0, s1))
                    else
                      (case traverse_ccos_image fuel sy cdc f data
                              (snprintf PATH_MAX (dirname @ ''/'' @ subdir_name))
                              (level + 1) on_file on_dir s1 of
                         None \<Rightarrow> None
                       | Some (r, s2) \<Rightarrow>
                           if r = - 1 then Some (- 1, s2)
                           else traverse_entries fuel sy cdc fs data dirname level on_file on_dir s2)))
      else
        (case invoke on_file data (OnFile f dirname level) s of
           (res, s1) \<Rightarrow>
             if res \<noteq> RESULT_OK then
               (if res = RESULT_ERROR then Some (- 1, s1) else Some (0, s1))
             else traverse_entries fuel sy cdc fs data dirname level on_file on_dir s1))"

subsection \<open>Helpers of the C library and of string_utils\<close>

text \<open>
  Modelled from the spec: \<^verbatim>\<open>replace_char_in_place\<close> of string_utils is not in
  dumper.c; the spec says that it substitutes every path separator in a decoded name
  with a placeholder character.
\<close>

definition replace_char_in_place :: "string \<Rightarrow> char \<Rightarrow> char \<Rightarrow> string" where
  "replace_char_in_place str c r = map (\<lambda>x. if x = c then r else x) str"

text \<open>
  The other functions of string_utils that dumper.c calls are parameters:
  \<open>trim_string\<close>, and \<open>print_frame n\<close> as the text it prints.
\<close>

record string_utils =
  trim_string :: "string \<Rightarrow> char \<Rightarrow> string"
  print_frame :: "nat \<Rightarrow> string"

text \<open>\<^verbatim>\<open>strrchr\<close>: the rest of the string from the last occurrence of \<open>c\<close> on, or \<^verbatim>\<open>NULL\<close>.\<close>

fun strrchr :: "string \<Rightarrow> char \<Rightarrow> string option" where
  "strrchr [] c = None"
| "strrchr (x # xs) c =
     (case strrchr xs c of
        Some r \<Rightarrow> Some r
      | None \<Rightarrow> if x = c then Some (x # xs) else None)"

text \<open>
  The base name of a path, as \<^verbatim>\<open>print_image_info\<close>, \<^verbatim>\<open>dump_dir\<close> and
  \<^verbatim>\<open>replace_file\<close> each compute it: one past the last \<^verbatim>\<open>'/'\<close>, or the whole
  path when \<^verbatim>\<open>strrchr\<close> finds none.
\<close>

definition path_basename :: "string \<Rightarrow> string" where
  "path_basename path =
     (case strrchr path CHR ''/'' of
        None \<Rightarrow> path
      | Some basename \<Rightarrow> tl basename)"

text \<open>
  An output stream (\<^verbatim>\<open>FILE\<close>): the path it was opened on, and the bytes that
  \<^verbatim>\<open>fwrite\<close> has taken and the library has not yet passed on to the file.
\<close>

record FILE =
  file_path :: string
  pending :: "byte list"

text \<open>
  Passing bytes on to the file at path \<open>p\<close>: the host appends what it still has
  room for; the result is the number of bytes it stored.
\<close>

definition transmit :: "string \<Rightarrow> byte list \<Rightarrow> host \<Rightarrow> nat \<times> host" where
  "transmit p bytes h =
     (let n = min (length bytes) (free_space h);
          old = (case files h p of None \<Rightarrow> [] | Some c \<Rightarrow> c)
      in (n, h\<lparr>files := (files h)(p \<mapsto> old @ take n bytes), free_space := free_space h - n\<rparr>))"

text \<open>\<^verbatim>\<open>fopen(p, "wb")\<close> creates or empties the file and gives a stream with an empty buffer.\<close>

definition fopen_wb :: "sys \<Rightarrow> string \<Rightarrow> host \<Rightarrow> (FILE \<times> host) option" where
  "fopen_wb sy p h =
     (if fopen_wb_ok sy p
      then Some (\<lparr>file_path = p, pending = []\<rparr>, h\<lparr>files := (files h)(p \<mapsto> [])\<rparr>)
      else None)"

text \<open>
  \<^verbatim>\<open>fwrite\<close> puts the bytes behind those that the stream holds and passes on
  to the file as many of them, from the front, as the library chooses. When the host
  stores all of these, every byte of the call is in the file or in the buffer, and the
  call returns the number of bytes it was given; when the host stores fewer, the call
  returns the number of its own bytes that reached the file. Bytes that stay in the
  buffer have not been offered to the host: a call that passes nothing on succeeds
  whatever room the host has.
\<close>

definition fwrite :: "sys \<Rightarrow> byte list \<Rightarrow> FILE \<Rightarrow> host \<Rightarrow> nat \<times> FILE \<times> host" where
  "fwrite sy bytes f h =
     (let held = pending f @ bytes;
          now = min (fwrite_transmits sy (length (pending f)) (length bytes)) (length held)
      in case transmit (file_path f) (take now held) h of
           (n, h1) \<Rightarrow>
             if n < now then (n - length (pending f), f\<lparr>pending := drop n held\<rparr>, h1)
             else (length bytes, f\<lparr>pending := drop now held\<rparr>, h1))"

text \<open>
  \<^verbatim>\<open>fclose\<close> passes on what the stream still holds and returns \<^verbatim>\<open>EOF\<close> when
  the host does not store all of it. dumper.c never looks at that result.
\<close>

definition EOF :: int where
  "EOF = - 1"

definition fclose :: "FILE \<Rightarrow> host \<Rightarrow> int \<times> host" where
  "fclose f h =
     (case transmit (file_path f) (pending f) h of
        (n, h1) \<Rightarrow> (if n < length (pending f) then EOF else 0, h1))"

text \<open>The conversions of \<^verbatim>\<open>printf\<close> that dumper.c uses.\<close>

definition digit_char :: "nat \<Rightarrow> char" where
  "digit_char d = ''0123456789'' ! d"

fun show_nat :: "nat \<Rightarrow> string" where
  "show_nat n = (if n < 10 then [digit_char n] else show_nat (n div 10) @ [digit_char (n mod 10)])"

declare show_nat.simps [simp del]

definition show_int :: "int \<Rightarrow> string" where
  "show_int i = (if i < 0 then CHR ''-'' # show_nat (nat (- i)) else show_nat (nat i))"

text \<open>\<^verbatim>\<open>%-*s\<close>, \<^verbatim>\<open>%*s\<close> and \<^verbatim>\<open>%0*d\<close> for a width and a text; never shorter than the text.\<close>

definition pad_right :: "nat \<Rightarrow> string \<Rightarrow> string" where
  "pad_right w str = str @ replicate (w - length str) CHR '' ''"

definition pad_left :: "nat \<Rightarrow> string \<Rightarrow> string" where
  "pad_left w str = replicate (w - length str) CHR '' '' @ str"

definition zero_pad :: "nat \<Rightarrow> string \<Rightarrow> string" where
  "zero_pad w str = replicate (w - length str) CHR ''0'' @ str"

subsection \<open>The lister\<close>

definition VERSION_MAX_SIZE :: nat where
  "VERSION_MAX_SIZE = 12"

text \<open>\<^verbatim>\<open>format_version\<close> (lines 38 to 46); \<open>None\<close> is \<^verbatim>\<open>NULL\<close>.\<close>

definition format_version :: "sys \<Rightarrow> version_t \<Rightarrow> string option" where
  "format_version sy version =
     (if \<not> calloc_ok sy VERSION_MAX_SIZE then None
      else Some (snprintf VERSION_MAX_SIZE
        (show_nat (unat (major version)) @ ''.'' @ show_nat (unat (minor version)) @ ''.''
           @ show_nat (unat (patch version)))))"

text \<open>A date as \<^verbatim>\<open>%04d/%02d/%02d\<close> in a buffer of 16 characters.\<close>

definition date_string :: "ccos_date_t \<Rightarrow> string" where
  "date_string d =
     snprintf 16 (zero_pad 4 (show_nat (unat (year d))) @ ''/'' @ zero_pad 2 (show_nat (unat (month d)))
       @ ''/'' @ zero_pad 2 (show_nat (unat (day d))))"

text \<open>The name column: the base name right-justified in its length plus two per level.\<close>

definition formatted_name :: "string \<Rightarrow> nat \<Rightarrow> string" where
  "formatted_name basename level =
     (let formatted_name_length = length basename + 2 * level
      in snprintf (formatted_name_length + 1) (pad_left formatted_name_length basename))"

text \<open>
  The row that the \<^verbatim>\<open>printf\<close> of \<^verbatim>\<open>print_file_info\<close> writes. The size is a
  \<^verbatim>\<open>uint32_t\<close> printed with \<^verbatim>\<open>%d\<close>, so it is read as signed.
\<close>

definition info_row :: "codec \<Rightarrow> image \<Rightarrow> block \<Rightarrow> string \<Rightarrow> string \<Rightarrow> string \<Rightarrow> string" where
  "info_row cdc data file_block fname ty version_string =
     pad_right 32 fname @ pad_right 24 ty
       @ pad_right 16 (show_int (sint (ccos_get_file_size cdc file_block data)))
       @ pad_right 8 version_string
       @ pad_right 16 (date_string (ccos_get_creation_date cdc file_block data))
       @ pad_right 16 (date_string (ccos_get_mod_date cdc file_block data))
       @ pad_right 16 (date_string (ccos_get_exp_date cdc file_block data))
       @ [CHR 0x0A]"

text \<open>
  \<^verbatim>\<open>print_file_info\<close> (lines 128 to 177), the visitor of the lister for files
  and for directories.
\<close>

definition print_file_info :: "sys \<Rightarrow> codec \<Rightarrow> unit callback" where
  "print_file_info sy cdc file_block data dirname level a h =
     (case ccos_parse_file_name cdc (ccos_get_file_name cdc file_block data) of
        None \<Rightarrow> (RESULT_ERROR, a, h)
      | Some (basename, ty) \<Rightarrow>
          if \<not> calloc_ok sy (length basename + 2 * level + 1) then (RESULT_ERROR, a, h)
          else
            (case format_version sy (ccos_get_file_version cdc file_block data) of
               None \<Rightarrow> (RESULT_ERROR, a, h)
             | Some version_string \<Rightarrow>
                 (RESULT_OK, a,
                  h\<lparr>stdout := stdout h
                      @ info_row cdc data file_block (formatted_name basename level) ty version_string\<rparr>)))"

text \<open>What \<^verbatim>\<open>print_image_info\<close> prints before it walks the image.\<close>

definition listing_heading :: "string_utils \<Rightarrow> string \<Rightarrow> string \<Rightarrow> string" where
  "listing_heading su path floppy_name =
     (let name_trimmed = trim_string su floppy_name CHR '' '';
          basename = path_basename path
      in print_frame su (length basename + 2)
         @ ''|'' @ basename @ ''| - ''
         @ (if length name_trimmed = 0 then ''No description'' @ [CHR 0x0A]
            else floppy_name @ [CHR 0x0A])
         @ print_frame su (length basename + 2)
         @ [CHR 0x0A]
         @ pad_right 32 ''File name'' @ pad_right 24 ''File type'' @ pad_right 16 ''File size''
         @ pad_right 8 ''Version'' @ pad_right 16 ''Creation date'' @ pad_right 16 ''Mod. date''
         @ pad_right 16 ''Exp. date'' @ [CHR 0x0A]
         @ print_frame su 128)"

text \<open>
  \<^verbatim>\<open>print_image_info\<close> (lines 179 to 206). The source passes the result of
  \<^verbatim>\<open>ccos_short_string_to_string\<close> on without a check; when that is \<^verbatim>\<open>NULL\<close>
  the call has no defined result and the model returns \<open>None\<close>, as it does when the
  walk does not return.
\<close>

definition print_image_info :: "nat \<Rightarrow> string_utils \<Rightarrow> sys \<Rightarrow> codec \<Rightarrow> string \<Rightarrow> block \<Rightarrow> image
    \<Rightarrow> host \<Rightarrow> (int \<times> host) option" where
  "print_image_info fuel su sy cdc path superblock data h =
     (case ccos_short_string_to_string cdc (ccos_get_file_name cdc superblock data) of
        None \<Rightarrow> None
      | Some floppy_name \<Rightarrow>
          (case traverse_ccos_image fuel sy cdc superblock data [] 0
                  (Some (print_file_info sy cdc)) (Some (print_file_info sy cdc))
                  \<lparr>arg = (), env = h\<lparr>stdout := stdout h @ listing_heading su path floppy_name\<rparr>,
                   calls = []\<rparr> of
             None \<Rightarrow> None
           | Some (r, s) \<Rightarrow> Some (r, env s)))"

subsection \<open>The extractor\<close>

text \<open>
  The loop of \<^verbatim>\<open>dump_dir_tree_on_file\<close> (lines 250 to 276) over the blocks
  from its current index on, with the \<^verbatim>\<open>fclose\<close> on each of its three ways out
  (lines 255, 266 and 278), whose result is dropped. \<^verbatim>\<open>file_size\<close> and \<^verbatim>\<open>current_size\<close> are \<^verbatim>\<open>uint32_t\<close>; their
  difference wraps and is compared with the \<^verbatim>\<open>size_t\<close> \<^verbatim>\<open>data_size\<close>
  (the macro \<^verbatim>\<open>MIN\<close> expands to that comparison); the sum is cut to 32 bits. The
  loop has no exit but the end of the chain and the two failures. Its index is an
  \<^verbatim>\<open>int\<close> compared with the \<^verbatim>\<open>size_t\<close> count of the chain; the model
  follows the list.
\<close>

fun write_blocks :: "sys \<Rightarrow> codec \<Rightarrow> image \<Rightarrow> 32 word \<Rightarrow> block list \<Rightarrow> 32 word \<Rightarrow> FILE \<Rightarrow> host
    \<Rightarrow> int \<times> host" where
  "write_blocks sy cdc data file_size [] current_size f h = (RESULT_OK, snd (fclose f h))"
| "write_blocks sy cdc data file_size (b # bs) current_size f h =
     (case ccos_get_block_data cdc b data of
        None \<Rightarrow> (RESULT_ERROR, snd (fclose f h))
      | Some payload \<Rightarrow>
          (let data_size = length payload;
               write_size = (if unat (file_size - current_size) < data_size
                             then unat (file_size - current_size) else data_size)
           in case fwrite sy (take write_size payload) f h of
                (written, f1, h1) \<Rightarrow>
                  if written < write_size then (RESULT_ERROR, snd (fclose f1 h1))
                  else write_blocks sy cdc data file_size bs
                         (current_size + of_nat write_size) f1 h1))"

text \<open>\<^verbatim>\<open>dump_dir_tree_on_file\<close> (lines 208 to 285), the visitor of the extractor for files.\<close>

definition dump_dir_tree_on_file :: "sys \<Rightarrow> codec \<Rightarrow> 'a callback" where
  "dump_dir_tree_on_file sy cdc block data dirname level a h =
     (if \<not> calloc_ok sy PATH_MAX then (RESULT_ERROR, a, h)
      else
        (case ccos_short_string_to_string cdc (ccos_get_file_name cdc block data) of
           None \<Rightarrow> (RESULT_ERROR, a, h)
         | Some file_name \<Rightarrow>
             (let abspath = snprintf PATH_MAX
                    (dirname @ ''/'' @ replace_char_in_place file_name CHR ''/'' CHR ''_'')
              in case ccos_get_file_blocks cdc block data of
                   None \<Rightarrow> (RESULT_ERROR, a, h)
                 | Some blocks \<Rightarrow>
                     (case fopen_wb sy abspath h of
                        None \<Rightarrow> (RESULT_ERROR, a, h)
                      | Some (f, h1) \<Rightarrow>
                          (case write_blocks sy cdc data (ccos_get_file_size cdc block data)
                                  blocks 0 f h1 of
                             (res, h2) \<Rightarrow> (res, a, h2))))))"

subsection \<open>The locator\<close>

record find_file_data_t =
  target_name :: string
  target_inode :: block

text \<open>\<^verbatim>\<open>find_file_on_file\<close> (lines 364 to 382), the visitor of the locator.\<close>

definition find_file_on_file :: "codec \<Rightarrow> find_file_data_t callback" where
  "find_file_on_file cdc block data dirname level target_data h =
     (case ccos_short_string_to_string cdc (ccos_get_file_name cdc block data) of
        None \<Rightarrow> (RESULT_ERROR, target_data, h)
      | Some file_name \<Rightarrow>
          if target_name target_data = replace_char_in_place file_name CHR ''/'' CHR ''_''
          then (RESULT_BREAK, target_data\<lparr>target_inode := block\<rparr>, h)
          else (RESULT_OK, target_data, h))"

text \<open>
  \<^verbatim>\<open>find_filename\<close> (lines 384 to 399). Its two failures both return \<^verbatim>\<open>-1\<close>; they differ by
  their message: the walk failed, or the file is not in the image.
\<close>

datatype find_error = WalkFailed | FileNotFound

definition find_filename :: "nat \<Rightarrow> sys \<Rightarrow> codec \<Rightarrow> block \<Rightarrow> image \<Rightarrow> string \<Rightarrow> host
    \<Rightarrow> (find_error + block) option" where
  "find_filename fuel sy cdc superblock data filename h =
     (case traverse_ccos_image fuel sy cdc superblock data [] 0 (Some (find_file_on_file cdc)) None
             \<lparr>arg = \<lparr>target_name = filename, target_inode = 0\<rparr>, env = h, calls = []\<rparr> of
        None \<Rightarrow> None
      | Some (r, s) \<Rightarrow>
          if r = - 1 then Some (Inl WalkFailed)
          else if target_inode (arg s) = 0 then Some (Inl FileNotFound)
          else Some (Inr (target_inode (arg s))))"

subsection \<open>The patcher\<close>

text \<open>The failures of \<^verbatim>\<open>replace_file\<close>, one per message; each returns \<^verbatim>\<open>-1\<close>.\<close>

datatype replace_error =
    NotInImage string
  | CannotOpenInput
  | OutOfMemory
  | ShortRead
  | OverwriteFailed
  | CannotOpenOutput
  | ShortWrite

text \<open>
  The name that \<^verbatim>\<open>replace_file\<close> looks for: its local \<^verbatim>\<open>basename\<close>
  (lines 404 to 415); a \<^verbatim>\<open>NULL\<close> target name is \<open>None\<close>.
\<close>

definition searched_name :: "string \<Rightarrow> string option \<Rightarrow> string" where
  "searched_name filename target =
     (case target of
        Some t \<Rightarrow> t
      | None \<Rightarrow> path_basename filename)"

text \<open>
  \<^verbatim>\<open>replace_file\<close> once the file is found (lines 422 to 480): read the host file, overwrite the
  content in the image, write the image out. The result holds the image buffer and the
  host as the call leaves them. \<^verbatim>\<open>fwrite\<close> is given \<^verbatim>\<open>data_size\<close> bytes of
  the buffer; the stream is closed before the count that \<^verbatim>\<open>fwrite\<close> returned is
  compared (lines 471 to 478), and the result of \<^verbatim>\<open>fclose\<close> is dropped.
\<close>

definition overwrite_and_save :: "sys \<Rightarrow> codec \<Rightarrow> string \<Rightarrow> string \<Rightarrow> block \<Rightarrow> image \<Rightarrow> nat
    \<Rightarrow> bool \<Rightarrow> host \<Rightarrow> (replace_error + unit) \<times> image \<times> host" where
  "overwrite_and_save sy cdc path filename inode data data_size in_place h =
     (case files h filename of
        None \<Rightarrow> (Inl CannotOpenInput, data, h)
      | Some file_contents \<Rightarrow>
          (let file_size = length file_contents in
           if \<not> calloc_ok sy file_size then (Inl OutOfMemory, data, h)
           else if fread_count sy filename file_size \<noteq> file_size then (Inl ShortRead, data, h)
           else
             (case ccos_replace_file cdc inode file_contents data of
                (rc, data1) \<Rightarrow>
                  if rc = - 1 then (Inl OverwriteFailed, data1, h)
                  else
                    (let output_path = (if in_place then path
                                        else snprintf PATH_MAX (path @ ''.new''))
                     in case fopen_wb sy output_path h of
                          None \<Rightarrow> (Inl CannotOpenOutput, data1, h)
                        | Some (output, h1) \<Rightarrow>
                            (case fwrite sy (take data_size data1) output h1 of
                               (res, output1, h2) \<Rightarrow>
                                 (case fclose output1 h2 of
                                    (closed, h3) \<Rightarrow>
                                      if res \<noteq> data_size then (Inl ShortWrite, data1, h3)
                                      else (Inr (), data1, h3)))))))"

text \<open>\<^verbatim>\<open>replace_file\<close> (lines 401 to 481); the in-place flag is a truth value.\<close>

definition replace_file :: "nat \<Rightarrow> sys \<Rightarrow> codec \<Rightarrow> string \<Rightarrow> string \<Rightarrow> string option \<Rightarrow> block
    \<Rightarrow> image \<Rightarrow> nat \<Rightarrow> bool \<Rightarrow> host \<Rightarrow> ((replace_error + unit) \<times> image \<times> host) option" where
  "replace_file fuel sy cdc path filename target superblock data data_size in_place h =
     (case find_filename fuel sy cdc superblock data (searched_name filename target) h of
        None \<Rightarrow> None
      | Some (Inl e) \<Rightarrow> Some (Inl (NotInImage (searched_name filename target)), data, h)
      | Some (Inr inode) \<Rightarrow>
          Some (overwrite_and_save sy cdc path filename inode data data_size in_place h))"

subsection \<open>Tree-shaped images\<close>

text \<open>
  The shape of a well-formed image below a block: a file, or a directory with the
  trees of its children in the order the codec lists them. The functions below work
  on forests: the trees of the children of one directory.
\<close>

datatype entry_tree = FileNode block | DirNode block "entry_tree list"

fun root_of :: "entry_tree \<Rightarrow> block" where
  "root_of (FileNode b) = b"
| "root_of (DirNode b ts) = b"

text \<open>The blocks of a forest, parents before children, siblings in order.\<close>

fun forest_blocks :: "entry_tree list \<Rightarrow> block list" where
  "forest_blocks [] = []"
| "forest_blocks (FileNode b # ts) = b # forest_blocks ts"
| "forest_blocks (DirNode b sub # ts) = b # forest_blocks sub @ forest_blocks ts"

text \<open>The blocks of the files of a forest.\<close>

fun forest_files :: "entry_tree list \<Rightarrow> block list" where
  "forest_files [] = []"
| "forest_files (FileNode b # ts) = b # forest_files ts"
| "forest_files (DirNode b sub # ts) = forest_files sub @ forest_files ts"

text \<open>The blocks of a forest in the same order, each with its nesting depth.\<close>

fun forest_levels :: "nat \<Rightarrow> entry_tree list \<Rightarrow> (block \<times> nat) list" where
  "forest_levels l [] = []"
| "forest_levels l (FileNode b # ts) = (b, l) # forest_levels l ts"
| "forest_levels l (DirNode b sub # ts) = (b, l) # forest_levels (l + 1) sub @ forest_levels l ts"

text \<open>How deep the walker recurses below the entries of a forest.\<close>

fun forest_depth :: "entry_tree list \<Rightarrow> nat" where
  "forest_depth [] = 0"
| "forest_depth (FileNode b # ts) = forest_depth ts"
| "forest_depth (DirNode b sub # ts) = max (Suc (forest_depth sub)) (forest_depth ts)"

text \<open>
  The image decodes to the forest: the codec classifies each node as the forest says,
  the name of each directory parses, and the child list of each directory is the list
  of the roots of its subtrees.
\<close>

fun forest_ok :: "codec \<Rightarrow> image \<Rightarrow> entry_tree list \<Rightarrow> bool" where
  "forest_ok cdc data [] = True"
| "forest_ok cdc data (FileNode b # ts) = (\<not> ccos_is_dir cdc b data \<and> forest_ok cdc data ts)"
| "forest_ok cdc data (DirNode b sub # ts) =
     (ccos_is_dir cdc b data
      \<and> ccos_parse_file_name cdc (ccos_get_file_name cdc b data) \<noteq> None
      \<and> ccos_get_dir_contents cdc b data = Some (map root_of sub)
      \<and> forest_ok cdc data sub
      \<and> forest_ok cdc data ts)"

text \<open>The children of \<open>start\<close> decode to the forest \<open>ts\<close>.\<close>

definition decodes_to :: "codec \<Rightarrow> image \<Rightarrow> block \<Rightarrow> entry_tree list \<Rightarrow> bool" where
  "decodes_to cdc data start ts \<longleftrightarrow>
     ccos_get_dir_contents cdc start data = Some (map root_of ts) \<and> forest_ok cdc data ts"

text \<open>
  The entries below \<open>start\<close> in the image itself: the children of \<open>start\<close>, and the
  children of every entry below it that the codec classifies as a directory.
\<close>

inductive reachable :: "codec \<Rightarrow> image \<Rightarrow> block \<Rightarrow> block \<Rightarrow> bool" for cdc data start where
  child: "ccos_get_dir_contents cdc start data = Some cs \<Longrightarrow> c \<in> set cs \<Longrightarrow> reachable cdc data start c"
| below: "reachable cdc data start d \<Longrightarrow> ccos_is_dir cdc d data
    \<Longrightarrow> ccos_get_dir_contents cdc d data = Some cs \<Longrightarrow> c \<in> set cs \<Longrightarrow> reachable cdc data start c"

code_pred reachable .

text \<open>The path the walker builds for the children of directory \<open>b\<close>.\<close>

definition subdir_path :: "codec \<Rightarrow> image \<Rightarrow> string \<Rightarrow> block \<Rightarrow> string" where
  "subdir_path cdc data dirname b =
     (case ccos_parse_file_name cdc (ccos_get_file_name cdc b data) of
        None \<Rightarrow> dirname
      | Some (subdir_name, ty) \<Rightarrow> snprintf PATH_MAX (dirname @ ''/'' @ subdir_name))"

text \<open>
  The entries of a forest in pre-order, each as the invocation of a visitor with the
  directory path and the level that the walker passes.
\<close>

fun walk_order :: "codec \<Rightarrow> image \<Rightarrow> string \<Rightarrow> nat \<Rightarrow> entry_tree list \<Rightarrow> event list" where
  "walk_order cdc data dirname level [] = []"
| "walk_order cdc data dirname level (FileNode b # ts) =
     OnFile b dirname level # walk_order cdc data dirname level ts"
| "walk_order cdc data dirname level (DirNode b sub # ts) =
     OnDir b dirname level
       # walk_order cdc data (subdir_path cdc data dirname b) (level + 1) sub
       @ walk_order cdc data dirname level ts"

text \<open>The visitor that the walker calls for an event.\<close>

fun visitor_for :: "'a callback option \<Rightarrow> 'a callback option \<Rightarrow> event \<Rightarrow> 'a callback option" where
  "visitor_for on_file on_dir (OnFile b d l) = on_file"
| "visitor_for on_file on_dir (OnDir b d l) = on_dir"

text \<open>The state after the visitors have run on a list of events, whatever their verdicts.\<close>

definition run_events :: "'a callback option \<Rightarrow> 'a callback option \<Rightarrow> image \<Rightarrow> event list
    \<Rightarrow> 'a walk_state \<Rightarrow> 'a walk_state" where
  "run_events on_file on_dir data evs s =
     foldl (\<lambda>s ev. snd (invoke (visitor_for on_file on_dir ev) data ev s)) s evs"

text \<open>Every visitor invocation of the list returns \<open>RESULT_OK\<close>, in whatever state it is made.\<close>

definition all_ok :: "'a callback option \<Rightarrow> 'a callback option \<Rightarrow> image \<Rightarrow> event list \<Rightarrow> bool" where
  "all_ok on_file on_dir data evs \<longleftrightarrow>
     (\<forall>ev \<in> set evs. \<forall>s. fst (invoke (visitor_for on_file on_dir ev) data ev s) = RESULT_OK)"

text \<open>
  The visitors themselves, without the walker: the visitor that belongs to an event,
  applied to the arguments of the event, to a user argument and to a host.
\<close>

fun visit :: "'a callback \<Rightarrow> 'a callback \<Rightarrow> image \<Rightarrow> event \<Rightarrow> 'a \<Rightarrow> host \<Rightarrow> int \<times> 'a \<times> host" where
  "visit on_file on_dir data (OnFile b d l) a h = on_file b data d l a h"
| "visit on_file on_dir data (OnDir b d l) a h = on_dir b data d l a h"

text \<open>
  The user argument and the host after the visitors have been applied to the events of
  a list, once to each and in the order of the list, each to what the one before left.
\<close>

fun visit_all :: "'a callback \<Rightarrow> 'a callback \<Rightarrow> image \<Rightarrow> event list \<Rightarrow> 'a \<times> host \<Rightarrow> 'a \<times> host" where
  "visit_all on_file on_dir data [] ah = ah"
| "visit_all on_file on_dir data (ev # evs) ah =
     visit_all on_file on_dir data evs (snd (visit on_file on_dir data ev (fst ah) (snd ah)))"

text \<open>In that sequence of applications no visitor returns another verdict than \<open>RESULT_OK\<close>.\<close>

fun all_continue :: "'a callback \<Rightarrow> 'a callback \<Rightarrow> image \<Rightarrow> event list \<Rightarrow> 'a \<times> host \<Rightarrow> bool" where
  "all_continue on_file on_dir data [] ah = True"
| "all_continue on_file on_dir data (ev # evs) ah =
     (fst (visit on_file on_dir data ev (fst ah) (snd ah)) = RESULT_OK
      \<and> all_continue on_file on_dir data evs (snd (visit on_file on_dir data ev (fst ah) (snd ah))))"

text \<open>An event is the invocation of the visitor for directories.\<close>

fun is_dir_event :: "event \<Rightarrow> bool" where
  "is_dir_event (OnFile b d l) = False"
| "is_dir_event (OnDir b d l) = True"

subsection \<open>Images with a directory that does not decode\<close>

text \<open>
  The way from a start block down to a directory whose child list the codec cannot
  decode: one frame per level, holding the trees of the entries before the directory
  that the walk descends into, that directory, and the entries after it, of which
  nothing is required.
\<close>

datatype frame = Frame "entry_tree list" block "block list"

text \<open>The image has this shape below block \<open>b\<close>: the last directory of the path does not decode.\<close>

fun fail_path_ok :: "codec \<Rightarrow> image \<Rightarrow> block \<Rightarrow> frame list \<Rightarrow> bool" where
  "fail_path_ok cdc data b [] = (ccos_get_dir_contents cdc b data = None)"
| "fail_path_ok cdc data b (Frame pre d post # fr) =
     (ccos_get_dir_contents cdc b data = Some (map root_of pre @ d # post)
      \<and> forest_ok cdc data pre
      \<and> ccos_is_dir cdc d data
      \<and> ccos_parse_file_name cdc (ccos_get_file_name cdc d data) \<noteq> None
      \<and> fail_path_ok cdc data d fr)"

text \<open>The entries on and before the path, in the order of the walk.\<close>

fun fail_path_events :: "codec \<Rightarrow> image \<Rightarrow> string \<Rightarrow> nat \<Rightarrow> frame list \<Rightarrow> event list" where
  "fail_path_events cdc data dirname level [] = []"
| "fail_path_events cdc data dirname level (Frame pre d post # fr) =
     walk_order cdc data dirname level pre
       @ OnDir d dirname level
       # fail_path_events cdc data (subdir_path cdc data dirname d) (level + 1) fr"

fun fail_path_depth :: "frame list \<Rightarrow> nat" where
  "fail_path_depth [] = 0"
| "fail_path_depth (Frame pre d post # fr) = max (forest_depth pre) (Suc (fail_path_depth fr))"

subsection \<open>Matching names\<close>

text \<open>
  The name of block \<open>b\<close>, decoded and with its separators substituted, equals the
  target string.
\<close>

definition name_matches :: "codec \<Rightarrow> image \<Rightarrow> string \<Rightarrow> block \<Rightarrow> bool" where
  "name_matches cdc data target b =
     (case ccos_short_string_to_string cdc (ccos_get_file_name cdc b data) of
        None \<Rightarrow> False
      | Some file_name \<Rightarrow> target = replace_char_in_place file_name CHR ''/'' CHR ''_'')"

subsection \<open>The content of a block chain\<close>

text \<open>The payloads of the blocks of a chain, one after the other.\<close>

definition chain_data :: "codec \<Rightarrow> image \<Rightarrow> block list \<Rightarrow> byte list" where
  "chain_data cdc data bs =
     concat (map (\<lambda>b. case ccos_get_block_data cdc b data of None \<Rightarrow> [] | Some payload \<Rightarrow> payload) bs)"

subsection \<open>The rows of a listing\<close>

text \<open>The row that \<open>print_file_info\<close> prints for block \<open>b\<close> when it is invoked at level \<open>l\<close>.\<close>

definition listed_row :: "sys \<Rightarrow> codec \<Rightarrow> image \<Rightarrow> block \<Rightarrow> nat \<Rightarrow> string" where
  "listed_row sy cdc data b l =
     (case ccos_parse_file_name cdc (ccos_get_file_name cdc b data) of
        None \<Rightarrow> []
      | Some (basename, ty) \<Rightarrow>
          (case format_version sy (ccos_get_file_version cdc b data) of
             None \<Rightarrow> []
           | Some version_string \<Rightarrow>
               info_row cdc data b (formatted_name basename l) ty version_string))"

subsection \<open>The name that a replacement looks for, in the words of the specification\<close>

text \<open>
  The substring after the last \<^verbatim>\<open>'/'\<close> of a path, or the whole path when it
  contains none.
\<close>

definition spec_basename :: "string \<Rightarrow> string" where
  "spec_basename path =
     (if CHR ''/'' \<in> set path then rev (takeWhile (\<lambda>c. c \<noteq> CHR ''/'') (rev path)) else path)"

text \<open>The explicit target name when one is given, the base name of the host file otherwise.\<close>

definition spec_searched_name :: "string \<Rightarrow> string option \<Rightarrow> string" where
  "spec_searched_name filename target =
     (case target of None \<Rightarrow> spec_basename filename | Some t \<Rightarrow> t)"

subsection \<open>A small image\<close>

text \<open>
  An image on which the theorems below are instantiated. Block 1 is the root; it holds
  the directory 2 and the file 5; directory 2 holds the files 3 and 4. File 4 has a
  \<^verbatim>\<open>'/'\<close> in its name, the files 3 and 5 have the same name. File 3 has 5 bytes
  in two blocks of 4; file 4 has 2 bytes in a block of 3, followed in its chain by
  block 13, which does not decode; file 5 has 1 byte in a block of 2, followed in its
  chain by a block of 3. The codec replaces the content of a file by up
  to 8 bytes, which it stores at the start of the image.
\<close>

definition demo_codec :: codec where
  "demo_codec =
     \<lparr>ccos_get_dir_contents =
        (\<lambda>b data. if b = 1 then Some [2, 5] else if b = 2 then Some [3, 4] else None),
      ccos_is_dir = (\<lambda>b data. b = 1 \<or> b = 2),
      ccos_get_file_name =
        (\<lambda>b data. if b = 1 then [1] else if b = 2 then [2] else if b = 3 then [3]
                   else if b = 4 then [4] else if b = 5 then [5] else []),
      ccos_parse_file_name =
        (\<lambda>raw. if raw = [1] then Some (''disk'', '''')
                else if raw = [2] then Some (''docs'', ''Subject'')
                else if raw = [3] then Some (''a'', ''Text'')
                else if raw = [4] then Some (''b/c'', ''Text'')
                else if raw = [5] then Some (''a'', ''Text'')
                else None),
      ccos_short_string_to_string =
        (\<lambda>raw. if raw = [1] then Some ''disk''
                else if raw = [2] then Some ''docs~Subject~''
                else if raw = [3] then Some ''a~Text~''
                else if raw = [4] then Some ''b/c~Text~''
                else if raw = [5] then Some ''a~Text~''
                else None),
      ccos_get_file_size = (\<lambda>b data. if b = 3 then 5 else if b = 4 then 2 else if b = 5 then 1 else 0),
      ccos_get_file_version = (\<lambda>b data. \<lparr>major = 1, minor = 0, patch = 2\<rparr>),
      ccos_get_creation_date = (\<lambda>b data. \<lparr>year = 1985, month = 3, day = 14\<rparr>),
      ccos_get_mod_date = (\<lambda>b data. \<lparr>year = 1986, month = 11, day = 2\<rparr>),
      ccos_get_exp_date = (\<lambda>b data. \<lparr>year = 0, month = 0, day = 0\<rparr>),
      ccos_get_file_blocks =
        (\<lambda>b data. if b = 3 then Some [10, 11] else if b = 4 then Some [12, 13]
                   else if b = 5 then Some [14, 15] else None),
      ccos_get_block_data =
        (\<lambda>b data. if b = 10 then Some [1, 2, 3, 4] else if b = 11 then Some [5, 6, 7, 8]
                   else if b = 12 then Some [7, 7, 7] else if b = 14 then Some [4, 4]
                   else if b = 15 then Some [6, 6, 6] else None),
      ccos_replace_file =
        (\<lambda>b contents data. if length contents \<le> 8
                            then (0, contents @ drop (length contents) data)
                            else (- 1, data))\<rparr>"

definition demo_forest :: "entry_tree list" where
  "demo_forest = [DirNode 2 [FileNode 3, FileNode 4], FileNode 5]"

text \<open>The same image with a root that lists file 5, directory 2 and file 3, and a directory 2 that does not decode.\<close>

definition demo_broken :: codec where
  "demo_broken =
     demo_codec\<lparr>ccos_get_dir_contents := (\<lambda>b data. if b = 1 then Some [5, 2, 3] else None)\<rparr>"

definition demo_image :: image where
  "demo_image = [0, 0, 0, 0, 0, 0, 0, 0, 0, 0]"

text \<open>
  A C library whose allocations and reads succeed and whose streams have a buffer of
  4096 bytes: a call of \<^verbatim>\<open>fwrite\<close> passes nothing on while the buffer can take the
  bytes, and otherwise as many whole buffers as the stream then holds.
\<close>

definition demo_sys :: sys where
  "demo_sys =
     \<lparr>calloc_ok = (\<lambda>n. True), fopen_wb_ok = (\<lambda>p. True), fread_count = (\<lambda>p n. n),
      fwrite_transmits = (\<lambda>k n. if k + n \<le> 4096 then 0 else ((k + n) div 4096) * 4096)\<rparr>"

definition demo_host :: host where
  "demo_host =
     \<lparr>files = [''new.txt'' \<mapsto> [9, 9, 9], ''big.bin'' \<mapsto> [1, 2, 3, 4, 5, 6, 7, 8, 9]],
      free_space = 1000,
      stdout = []\<rparr>"

definition demo_utils :: string_utils where
  "demo_utils =
     \<lparr>trim_string = (\<lambda>str c. dropWhile (\<lambda>x. x = c) str),
      print_frame = (\<lambda>n. replicate n CHR ''-'' @ [CHR 0x0A])\<rparr>"

text \<open>A visitor that always continues.\<close>

definition continue_visitor :: "unit callback" where
  "continue_visitor b data dirname level a h = (RESULT_OK, a, h)"

text \<open>
  A path of \<open>PATH_MAX - 1\<close> characters, the longest that the host accepts: 2047
  directories \<^verbatim>\<open>a\<close> and a file \<^verbatim>\<open>a\<close>.
\<close>

definition long_path :: string where
  "long_path = concat (replicate 2047 ''a/'') @ ''a''"

section \<open>Properties of the tree walker\<close>

subsection \<open>A walk whose visitors all continue\<close>

lemma run_events_append:
  "run_events on_file on_dir data (xs @ ys) s =
   run_events on_file on_dir data ys (run_events on_file on_dir data xs s)"
  by (simp add: run_events_def)

lemma run_events_Nil: "run_events on_file on_dir data [] s = s"
  by (simp add: run_events_def)

lemma run_events_Cons:
  "run_events on_file on_dir data (ev # evs) s =
   run_events on_file on_dir data evs (snd (invoke (visitor_for on_file on_dir ev) data ev s))"
  by (simp add: run_events_def)

lemma all_ok_Cons:
  "all_ok on_file on_dir data (ev # evs) \<longleftrightarrow>
   (\<forall>s. fst (invoke (visitor_for on_file on_dir ev) data ev s) = RESULT_OK) \<and> all_ok on_file on_dir data evs"
  by (auto simp: all_ok_def)

lemma all_ok_append:
  "all_ok on_file on_dir data (xs @ ys) \<longleftrightarrow> all_ok on_file on_dir data xs \<and> all_ok on_file on_dir data ys"
  by (auto simp: all_ok_def)

lemma invoke_ok:
  assumes "\<forall>s. fst (invoke cb data ev s) = RESULT_OK"
  obtains s1 where "invoke cb data ev s = (RESULT_OK, s1)"
  using assms by (metis prod.collapse)

lemma walk_forest:
  "forest_ok cdc data ts \<Longrightarrow> forest_depth ts \<le> fuel \<Longrightarrow> calloc_ok sy PATH_MAX \<Longrightarrow>
   all_ok on_file on_dir data (walk_order cdc data dirname level ts) \<Longrightarrow>
   traverse_entries fuel sy cdc (map root_of ts @ fs) data dirname level on_file on_dir s =
   traverse_entries fuel sy cdc fs data dirname level on_file on_dir
     (run_events on_file on_dir data (walk_order cdc data dirname level ts) s)"
proof (induction ts arbitrary: fuel dirname level s fs rule: forest_blocks.induct)
  case 1
  show ?case by (simp add: run_events_Nil)
next
  case (2 b ts)
  let ?ev = "OnFile b dirname level"
  obtain s1 where s1: "invoke on_file data ?ev s = (RESULT_OK, s1)"
    using "2.prems"(4) by (auto simp: all_ok_Cons elim: invoke_ok)
  have rest: "all_ok on_file on_dir data (walk_order cdc data dirname level ts)"
    using "2.prems"(4) by (simp add: all_ok_Cons)
  have "traverse_entries fuel sy cdc (map root_of (FileNode b # ts) @ fs) data dirname level on_file on_dir s =
        traverse_entries fuel sy cdc (map root_of ts @ fs) data dirname level on_file on_dir s1"
    using "2.prems"(1) by (simp add: s1)
  also have "\<dots> = traverse_entries fuel sy cdc fs data dirname level on_file on_dir
        (run_events on_file on_dir data (walk_order cdc data dirname level ts) s1)"
    using "2.prems" rest by (intro "2.IH") simp_all
  finally show ?case by (simp add: run_events_Cons s1)
next
  case (3 b sub ts)
  obtain k where k: "fuel = Suc k" and kd: "forest_depth sub \<le> k"
    using "3.prems"(2) by (cases fuel) auto
  obtain nm ty where nm: "ccos_parse_file_name cdc (ccos_get_file_name cdc b data) = Some (nm, ty)"
    using "3.prems"(1) by auto
  let ?sub = "subdir_path cdc data dirname b"
  have sub: "snprintf PATH_MAX (dirname @ ''/'' @ nm) = ?sub"
    by (simp add: subdir_path_def nm)
  let ?ev = "OnDir b dirname level"
  obtain s1 where s1: "invoke on_dir data ?ev s = (RESULT_OK, s1)"
    using "3.prems"(4) by (auto simp: all_ok_Cons elim: invoke_ok)
  have ok_sub: "all_ok on_file on_dir data (walk_order cdc data ?sub (level + 1) sub)"
    and ok_ts: "all_ok on_file on_dir data (walk_order cdc data dirname level ts)"
    using "3.prems"(4) by (simp_all add: all_ok_Cons all_ok_append)
  let ?s2 = "run_events on_file on_dir data (walk_order cdc data ?sub (level + 1) sub) s1"
  have "traverse_entries k sy cdc (map root_of sub @ []) data ?sub (level + 1) on_file on_dir s1 =
        traverse_entries k sy cdc [] data ?sub (level + 1) on_file on_dir ?s2"
    using "3.prems"(1,3) kd ok_sub by (intro "3.IH"(1)) simp_all
  then have rec: "traverse_ccos_image fuel sy cdc b data ?sub (level + 1) on_file on_dir s1 = Some (0, ?s2)"
    using "3.prems"(1) by (simp add: k)
  have "traverse_entries fuel sy cdc (b # map root_of ts @ fs) data dirname level on_file on_dir s =
        traverse_entries fuel sy cdc (map root_of ts @ fs) data dirname level on_file on_dir ?s2"
    using "3.prems"(1,3) rec
    by (simp add: nm s1 subdir_path_def)
  also have "\<dots> = traverse_entries fuel sy cdc fs data dirname level on_file on_dir
        (run_events on_file on_dir data (walk_order cdc data dirname level ts) ?s2)"
    using "3.prems"(1,2,3) ok_ts by (intro "3.IH"(2)) simp_all
  finally show ?case by (simp add: run_events_Cons run_events_append s1)
qed


lemma invoke_Some_calls: "calls (snd (invoke (Some f) data ev s)) = calls s @ [ev]"
  by (simp add: invoke_def split: prod.splits)

lemma invoke_Some_fst: "fst (invoke (Some f) data ev s) = fst (f (ev_block ev) data (ev_dirname ev) (ev_level ev) (arg s) (env s))"
  by (simp add: invoke_def split: prod.splits)

lemma calls_run_events:
  "calls (run_events (Some f) (Some g) data evs s) = calls s @ evs"
proof (induction evs arbitrary: s)
  case Nil
  show ?case by (simp add: run_events_Nil)
next
  case (Cons ev evs)
  show ?case
    by (cases ev) (simp_all add: run_events_Cons Cons.IH invoke_Some_calls)
qed

lemma walk_order_blocks: "map ev_block (walk_order cdc data dirname level ts) = forest_blocks ts"
  by (induction ts arbitrary: dirname level rule: forest_blocks.induct) simp_all

lemma forest_roots_in_blocks: "set (map root_of ts) \<subseteq> set (forest_blocks ts)"
  by (induction ts rule: forest_blocks.induct) auto

lemma forest_children_closed:
  "forest_ok cdc data ts \<Longrightarrow> d \<in> set (forest_blocks ts) \<Longrightarrow> ccos_is_dir cdc d data \<Longrightarrow>
   ccos_get_dir_contents cdc d data = Some cs \<Longrightarrow> set cs \<subseteq> set (forest_blocks ts)"
proof (induction ts rule: forest_blocks.induct)
  case 1
  then show ?case by simp
next
  case (2 b ts)
  then show ?case by auto
next
  case (3 b sub ts)
  show ?case
  proof (cases "d = b")
    case True
    then have "cs = map root_of sub" using "3.prems" by simp
    then show ?thesis using forest_roots_in_blocks [of sub] by auto
  next
    case False
    then consider "d \<in> set (forest_blocks sub)" | "d \<in> set (forest_blocks ts)"
      using "3.prems"(2) by auto
    then show ?thesis
    proof cases
      case 1
      then have "set cs \<subseteq> set (forest_blocks sub)" using "3.IH"(1) "3.prems" by simp
      then show ?thesis by auto
    next
      case 2
      then have "set cs \<subseteq> set (forest_blocks ts)" using "3.IH"(2) "3.prems" by simp
      then show ?thesis by auto
    qed
  qed
qed

lemma reachable_in_forest:
  assumes "decodes_to cdc data start ts" and "reachable cdc data start c"
  shows "c \<in> set (forest_blocks ts)"
  using assms(2)
proof (induction rule: reachable.induct)
  case (child cs c)
  then show ?case using assms(1) forest_roots_in_blocks [of ts] by (auto simp: decodes_to_def)
next
  case (below d cs c)
  then show ?case using assms(1) forest_children_closed [of cdc data ts d cs]
    by (auto simp: decodes_to_def)
qed

lemma forest_reachable:
  "forest_ok cdc data ts \<Longrightarrow> (\<And>r. r \<in> set (map root_of ts) \<Longrightarrow> reachable cdc data start r) \<Longrightarrow>
   c \<in> set (forest_blocks ts) \<Longrightarrow> reachable cdc data start c"
proof (induction ts rule: forest_blocks.induct)
  case 1
  then show ?case by simp
next
  case (2 b ts)
  then show ?case by auto
next
  case (3 b sub ts)
  have b: "reachable cdc data start b" using "3.prems"(2) by simp
  have subroots: "\<And>r. r \<in> set (map root_of sub) \<Longrightarrow> reachable cdc data start r"
    using "3.prems"(1) b by (auto intro: reachable.below)
  consider "c = b" | "c \<in> set (forest_blocks sub)" | "c \<in> set (forest_blocks ts)"
    using "3.prems"(3) by auto
  then show ?case
  proof cases
    case 1
    then show ?thesis using b by simp
  next
    case 2
    then show ?thesis using "3.IH"(1) "3.prems"(1) subroots by simp
  next
    case 3
    then show ?thesis using "3.IH"(2) "3.prems"(1,2) by simp
  qed
qed

lemma reachable_iff_forest:
  assumes "decodes_to cdc data start ts"
  shows "reachable cdc data start c \<longleftrightarrow> c \<in> set (forest_blocks ts)"
proof
  assume "reachable cdc data start c"
  then show "c \<in> set (forest_blocks ts)" using assms by (rule reachable_in_forest [rotated])
next
  assume c: "c \<in> set (forest_blocks ts)"
  have ok: "forest_ok cdc data ts" and cs: "ccos_get_dir_contents cdc start data = Some (map root_of ts)"
    using assms by (simp_all add: decodes_to_def)
  show "reachable cdc data start c"
    by (rule forest_reachable [OF ok _ c]) (rule reachable.child [OF cs])
qed

lemma dir_before_descendants:
  "forest_ok cdc data ts \<Longrightarrow> d \<in> set (forest_blocks ts) \<Longrightarrow> ccos_is_dir cdc d data \<Longrightarrow>
   \<exists>pre sub post dn l. walk_order cdc data dirname level ts = pre @ OnDir d dn l # sub @ post
      \<and> (\<forall>e. reachable cdc data d e \<longrightarrow> e \<in> ev_block ` set sub)"
proof (induction ts arbitrary: dirname level rule: forest_blocks.induct)
  case 1
  then show ?case by simp
next
  case (2 b ts)
  then have "d \<in> set (forest_blocks ts)" by auto
  then obtain pre sub post dn l where
    "walk_order cdc data dirname level ts = pre @ OnDir d dn l # sub @ post"
    "\<forall>e. reachable cdc data d e \<longrightarrow> e \<in> ev_block ` set sub"
    using "2.IH" [of dirname level] "2.prems" by auto
  then have "walk_order cdc data dirname level (FileNode b # ts) = (OnFile b dirname level # pre) @ OnDir d dn l # sub @ post"
    by simp
  then show ?case using \<open>\<forall>e. reachable cdc data d e \<longrightarrow> e \<in> ev_block ` set sub\<close> by blast
next
  case (3 b sub ts)
  let ?sd = "subdir_path cdc data dirname b"
  consider "d = b" | "d \<in> set (forest_blocks sub)" | "d \<in> set (forest_blocks ts)"
    using "3.prems"(2) by auto
  then show ?case
  proof cases
    case 1
    have dec: "decodes_to cdc data b sub" using "3.prems"(1) by (simp add: decodes_to_def)
    have "\<forall>e. reachable cdc data d e \<longrightarrow> e \<in> ev_block ` set (walk_order cdc data ?sd (level + 1) sub)"
      using reachable_in_forest [OF dec] 1 walk_order_blocks [of cdc data ?sd "level + 1" sub]
      by (metis set_map)
    moreover have "walk_order cdc data dirname level (DirNode b sub # ts) =
        [] @ OnDir d dirname level # walk_order cdc data ?sd (level + 1) sub @ walk_order cdc data dirname level ts"
      using 1 by simp
    ultimately show ?thesis by blast
  next
    case 2
    then obtain pre sb post dn l where
      w: "walk_order cdc data ?sd (level + 1) sub = pre @ OnDir d dn l # sb @ post"
      and r: "\<forall>e. reachable cdc data d e \<longrightarrow> e \<in> ev_block ` set sb"
      using "3.IH"(1) [of ?sd "level + 1"] "3.prems" by auto
    have "walk_order cdc data dirname level (DirNode b sub # ts) =
        (OnDir b dirname level # pre) @ OnDir d dn l # sb @ (post @ walk_order cdc data dirname level ts)"
      using w by simp
    then show ?thesis using r by blast
  next
    case 3
    then obtain pre sb post dn l where
      w: "walk_order cdc data dirname level ts = pre @ OnDir d dn l # sb @ post"
      and r: "\<forall>e. reachable cdc data d e \<longrightarrow> e \<in> ev_block ` set sb"
      using "3.IH"(2) [of dirname level] "3.prems" by auto
    have "walk_order cdc data dirname level (DirNode b sub # ts) =
        (OnDir b dirname level # walk_order cdc data ?sd (level + 1) sub @ pre) @ OnDir d dn l # sb @ post"
      using w by simp
    then show ?thesis using r by blast
  qed
qed

lemma walk_from_start:
  assumes dec: "decodes_to cdc data start ts"
    and fuel: "forest_depth ts < fuel"
    and mem: "calloc_ok sy PATH_MAX"
    and ok: "all_ok on_file on_dir data (walk_order cdc data dirname level ts)"
  shows "traverse_ccos_image fuel sy cdc start data dirname level on_file on_dir s =
         Some (0, run_events on_file on_dir data (walk_order cdc data dirname level ts) s)"
proof -
  obtain k where k: "fuel = Suc k" and kd: "forest_depth ts \<le> k"
    using fuel by (cases fuel) auto
  have fo: "forest_ok cdc data ts" and cs: "ccos_get_dir_contents cdc start data = Some (map root_of ts)"
    using dec by (simp_all add: decodes_to_def)
  have "traverse_entries k sy cdc (map root_of ts @ []) data dirname level on_file on_dir s =
        traverse_entries k sy cdc [] data dirname level on_file on_dir
          (run_events on_file on_dir data (walk_order cdc data dirname level ts) s)"
    by (rule walk_forest [OF fo kd mem ok])
  then show ?thesis by (simp add: k cs)
qed

text \<open>The depth bound written as a numeral.\<close>

lemma traverse_ccos_image_numeral:
  "traverse_ccos_image (numeral n) sy cdc b data dirname level on_file on_dir s =
     (case ccos_get_dir_contents cdc b data of
        None \<Rightarrow> Some (- 1, s)
      | Some root_dir_files \<Rightarrow>
          traverse_entries (pred_numeral n) sy cdc root_dir_files data dirname level on_file on_dir s)"
  by (simp add: numeral_eq_Suc)

subsection \<open>Every entry once, parents first\<close>

lemma visit_all_append:
  "visit_all on_file on_dir data (xs @ ys) ah =
   visit_all on_file on_dir data ys (visit_all on_file on_dir data xs ah)"
  by (induction xs arbitrary: ah) simp_all

lemma all_continue_append:
  "all_continue on_file on_dir data (xs @ ys) ah \<longleftrightarrow>
   all_continue on_file on_dir data xs ah
   \<and> all_continue on_file on_dir data ys (visit_all on_file on_dir data xs ah)"
  by (induction xs arbitrary: ah) auto

lemma invoke_continue:
  assumes "fst (visit on_file on_dir data ev (arg s) (env s)) = RESULT_OK"
  shows "invoke (visitor_for (Some on_file) (Some on_dir) ev) data ev s =
     (RESULT_OK,
      \<lparr>arg = fst (snd (visit on_file on_dir data ev (arg s) (env s))),
       env = snd (snd (visit on_file on_dir data ev (arg s) (env s))),
       calls = calls s @ [ev]\<rparr>)"
  using assms by (cases ev) (auto simp: invoke_def split: prod.splits)

lemma walk_forest_visit:
  "forest_ok cdc data ts \<Longrightarrow> forest_depth ts \<le> fuel \<Longrightarrow> calloc_ok sy PATH_MAX \<Longrightarrow>
   all_continue on_file on_dir data (walk_order cdc data dirname level ts) (arg s, env s) \<Longrightarrow>
   traverse_entries fuel sy cdc (map root_of ts @ fs) data dirname level (Some on_file) (Some on_dir) s =
   traverse_entries fuel sy cdc fs data dirname level (Some on_file) (Some on_dir)
     \<lparr>arg = fst (visit_all on_file on_dir data (walk_order cdc data dirname level ts) (arg s, env s)),
      env = snd (visit_all on_file on_dir data (walk_order cdc data dirname level ts) (arg s, env s)),
      calls = calls s @ walk_order cdc data dirname level ts\<rparr>"
proof (induction ts arbitrary: fuel dirname level s fs rule: forest_blocks.induct)
  case 1
  show ?case by (cases s) simp
next
  case (2 b ts)
  let ?ev = "OnFile b dirname level"
  let ?r = "visit on_file on_dir data ?ev (arg s) (env s)"
  let ?s1 = "\<lparr>arg = fst (snd ?r), env = snd (snd ?r), calls = calls s @ [?ev]\<rparr>"
  have ok: "fst ?r = RESULT_OK"
    and rest: "all_continue on_file on_dir data (walk_order cdc data dirname level ts) (arg ?s1, env ?s1)"
    using "2.prems"(4) by simp_all
  have inv: "invoke (Some on_file) data ?ev s = (RESULT_OK, ?s1)"
    using invoke_continue [OF ok] by simp
  have "traverse_entries fuel sy cdc (map root_of (FileNode b # ts) @ fs) data dirname level
          (Some on_file) (Some on_dir) s =
        traverse_entries fuel sy cdc (map root_of ts @ fs) data dirname level
          (Some on_file) (Some on_dir) ?s1"
    using "2.prems"(1) by (simp add: inv)
  also have "\<dots> = traverse_entries fuel sy cdc fs data dirname level (Some on_file) (Some on_dir)
        \<lparr>arg = fst (visit_all on_file on_dir data (walk_order cdc data dirname level ts) (arg ?s1, env ?s1)),
         env = snd (visit_all on_file on_dir data (walk_order cdc data dirname level ts) (arg ?s1, env ?s1)),
         calls = calls ?s1 @ walk_order cdc data dirname level ts\<rparr>"
    using "2.prems" rest by (intro "2.IH") simp_all
  finally show ?case by simp
next
  case (3 b sub ts)
  obtain k where k: "fuel = Suc k" and kd: "forest_depth sub \<le> k"
    using "3.prems"(2) by (cases fuel) auto
  obtain nm ty where nm: "ccos_parse_file_name cdc (ccos_get_file_name cdc b data) = Some (nm, ty)"
    using "3.prems"(1) by auto
  let ?sub = "subdir_path cdc data dirname b"
  let ?ev = "OnDir b dirname level"
  let ?r = "visit on_file on_dir data ?ev (arg s) (env s)"
  let ?s1 = "\<lparr>arg = fst (snd ?r), env = snd (snd ?r), calls = calls s @ [?ev]\<rparr>"
  let ?below = "walk_order cdc data ?sub (level + 1) sub"
  let ?after = "walk_order cdc data dirname level ts"
  let ?s2 = "\<lparr>arg = fst (visit_all on_file on_dir data ?below (arg ?s1, env ?s1)),
             env = snd (visit_all on_file on_dir data ?below (arg ?s1, env ?s1)),
             calls = calls ?s1 @ ?below\<rparr>"
  have ok: "fst ?r = RESULT_OK"
    and ok_sub: "all_continue on_file on_dir data ?below (arg ?s1, env ?s1)"
    and ok_ts: "all_continue on_file on_dir data ?after (arg ?s2, env ?s2)"
    using "3.prems"(4) by (simp_all add: all_continue_append)
  have inv: "invoke (Some on_dir) data ?ev s = (RESULT_OK, ?s1)"
    using invoke_continue [OF ok] by simp
  have "traverse_entries k sy cdc (map root_of sub @ []) data ?sub (level + 1) (Some on_file) (Some on_dir) ?s1 =
        traverse_entries k sy cdc [] data ?sub (level + 1) (Some on_file) (Some on_dir) ?s2"
    using "3.prems"(1,3) kd ok_sub by (intro "3.IH"(1)) simp_all
  then have rec: "traverse_ccos_image fuel sy cdc b data ?sub (level + 1) (Some on_file) (Some on_dir) ?s1
      = Some (0, ?s2)"
    using "3.prems"(1) by (simp add: k)
  have sub: "snprintf PATH_MAX (dirname @ ''/'' @ nm) = ?sub"
    by (simp add: subdir_path_def nm)
  have "traverse_entries fuel sy cdc (map root_of (DirNode b sub # ts) @ fs) data dirname level
          (Some on_file) (Some on_dir) s =
        traverse_entries fuel sy cdc (map root_of ts @ fs) data dirname level
          (Some on_file) (Some on_dir) ?s2"
    using "3.prems"(1,3) rec by (simp add: nm inv subdir_path_def)
  also have "\<dots> = traverse_entries fuel sy cdc fs data dirname level (Some on_file) (Some on_dir)
        \<lparr>arg = fst (visit_all on_file on_dir data ?after (arg ?s2, env ?s2)),
         env = snd (visit_all on_file on_dir data ?after (arg ?s2, env ?s2)),
         calls = calls ?s2 @ ?after\<rparr>"
    using "3.prems"(1,2,3) ok_ts by (intro "3.IH"(2)) simp_all
  finally show ?case by (simp add: visit_all_append)
qed

lemma walk_order_kinds:
  "forest_ok cdc data ts \<Longrightarrow> ev \<in> set (walk_order cdc data dirname level ts) \<Longrightarrow>
   is_dir_event ev = ccos_is_dir cdc (ev_block ev) data"
  by (induction ts arbitrary: dirname level rule: forest_blocks.induct) auto

lemma print_file_info_row:
  assumes "ccos_parse_file_name cdc (ccos_get_file_name cdc b data) \<noteq> None"
    and "\<forall>n. calloc_ok sy n"
  shows "print_file_info sy cdc b data dirname level a h =
     (RESULT_OK, a, h\<lparr>stdout := stdout h @ listed_row sy cdc data b level\<rparr>)"
  using assms by (auto simp: print_file_info_def listed_row_def format_version_def)

text \<open>
  C2. Take a well-formed image: the children of the start block decode to a forest
  whose blocks are pairwise distinct. Let \<open>evs\<close> be the entries of that forest in
  pre-order, each with the directory path and the level at which the walk meets it,
  and let both visitors be given and return \<open>RESULT_OK\<close> when they are applied to
  \<open>evs\<close> one after the other, starting from the user argument and the host of the
  walk. Then the walk returns 0 for every depth bound above the nesting of the image,
  and the user argument and the host it leaves are those that result from applying
  the visitors to \<open>evs\<close>, once to each event and in that order: the visitor for
  directories to the directories and the visitor for files to the files. \<open>evs\<close>
  names each entry below the start block exactly once, and the event of a directory
  comes before the event of any entry below that directory. The log of the walk is
  \<open>evs\<close>.
\<close>

theorem traverse_visits_each_entry_once_in_preorder:
  assumes dec: "decodes_to cdc data start ts"
    and tree: "distinct (forest_blocks ts)"
    and fuel: "forest_depth ts < fuel"
    and mem: "calloc_ok sy PATH_MAX"
    and cont: "all_continue on_file on_dir data (walk_order cdc data dirname level ts) (arg s, env s)"
  shows "\<exists>s' evs.
      traverse_ccos_image fuel sy cdc start data dirname level (Some on_file) (Some on_dir) s = Some (0, s')
      \<and> evs = walk_order cdc data dirname level ts
      \<and> (arg s', env s') = visit_all on_file on_dir data evs (arg s, env s)
      \<and> calls s' = calls s @ evs
      \<and> distinct (map ev_block evs)
      \<and> set (map ev_block evs) = {b. reachable cdc data start b}
      \<and> (\<forall>ev \<in> set evs. is_dir_event ev = ccos_is_dir cdc (ev_block ev) data)
      \<and> (\<forall>d e. reachable cdc data start d \<and> ccos_is_dir cdc d data \<and> reachable cdc data d e \<longrightarrow>
            (\<exists>pre post dn l. evs = pre @ OnDir d dn l # post
               \<and> e \<in> ev_block ` set post \<and> e \<notin> ev_block ` set pre))"
proof -
  let ?evs = "walk_order cdc data dirname level ts"
  let ?s' = "\<lparr>arg = fst (visit_all on_file on_dir data ?evs (arg s, env s)),
             env = snd (visit_all on_file on_dir data ?evs (arg s, env s)),
             calls = calls s @ ?evs\<rparr>"
  obtain k where k: "fuel = Suc k" and kd: "forest_depth ts \<le> k"
    using fuel by (cases fuel) auto
  have fo: "forest_ok cdc data ts" and cs: "ccos_get_dir_contents cdc start data = Some (map root_of ts)"
    using dec by (simp_all add: decodes_to_def)
  have "traverse_entries k sy cdc (map root_of ts @ []) data dirname level (Some on_file) (Some on_dir) s =
        traverse_entries k sy cdc [] data dirname level (Some on_file) (Some on_dir) ?s'"
    by (rule walk_forest_visit [OF fo kd mem cont])
  then have run: "traverse_ccos_image fuel sy cdc start data dirname level (Some on_file) (Some on_dir) s
      = Some (0, ?s')"
    by (simp add: k cs)
  have effect: "(arg ?s', env ?s') = visit_all on_file on_dir data ?evs (arg s, env s)" by simp
  have calls: "calls ?s' = calls s @ ?evs" by simp
  have blocks: "map ev_block ?evs = forest_blocks ts" by (rule walk_order_blocks)
  have once: "distinct (map ev_block ?evs)" using tree blocks by simp
  have every: "set (map ev_block ?evs) = {b. reachable cdc data start b}"
    using reachable_iff_forest [OF dec] blocks by auto
  have kinds: "\<forall>ev \<in> set ?evs. is_dir_event ev = ccos_is_dir cdc (ev_block ev) data"
    using walk_order_kinds [OF fo] by blast
  have order: "\<exists>pre post dn l. ?evs = pre @ OnDir d dn l # post
               \<and> e \<in> ev_block ` set post \<and> e \<notin> ev_block ` set pre"
    if d: "reachable cdc data start d" and isd: "ccos_is_dir cdc d data" and e: "reachable cdc data d e" for d e
  proof -
    have "d \<in> set (forest_blocks ts)" using reachable_iff_forest [OF dec] d by simp
    then obtain pre sub post dn l where
      w: "?evs = pre @ OnDir d dn l # sub @ post"
      and r: "\<forall>e. reachable cdc data d e \<longrightarrow> e \<in> ev_block ` set sub"
      using dir_before_descendants [OF fo _ isd, of dirname level] by blast
    have esub: "e \<in> ev_block ` set sub" using r e by blast
    have "distinct (map ev_block (pre @ OnDir d dn l # sub @ post))" using once w by simp
    then have "e \<notin> ev_block ` set pre" using esub by auto
    moreover have "e \<in> ev_block ` set (sub @ post)" using esub by auto
    ultimately show ?thesis using w by blast
  qed
  show ?thesis
  proof (intro exI conjI)
    show "traverse_ccos_image fuel sy cdc start data dirname level (Some on_file) (Some on_dir) s = Some (0, ?s')"
      by (rule run)
    show "?evs = walk_order cdc data dirname level ts" by (rule refl)
    show "(arg ?s', env ?s') = visit_all on_file on_dir data ?evs (arg s, env s)" by (rule effect)
    show "calls ?s' = calls s @ ?evs" by (rule calls)
    show "distinct (map ev_block ?evs)" by (rule once)
    show "set (map ev_block ?evs) = {b. reachable cdc data start b}" by (rule every)
    show "\<forall>ev \<in> set ?evs. is_dir_event ev = ccos_is_dir cdc (ev_block ev) data" by (rule kinds)
    show "\<forall>d e. reachable cdc data start d \<and> ccos_is_dir cdc d data \<and> reachable cdc data d e \<longrightarrow>
            (\<exists>pre post dn l. ?evs = pre @ OnDir d dn l # post
               \<and> e \<in> ev_block ` set post \<and> e \<notin> ev_block ` set pre)"
      using order by blast
  qed
qed

lemma demo_walk_order:
  "walk_order demo_codec demo_image [] 0 demo_forest =
     [OnDir 2 [] 0, OnFile 3 ''/docs'' 1, OnFile 4 ''/docs'' 1, OnFile 5 [] 0]"
  by (simp add: demo_forest_def subdir_path_def demo_codec_def snprintf_def PATH_MAX_def)

lemma demo_print_file_info:
  assumes "b = 2 \<or> b = 3 \<or> b = 4 \<or> b = 5"
  shows "print_file_info demo_sys demo_codec b demo_image d l a h =
     (RESULT_OK, a, h\<lparr>stdout := stdout h @ listed_row demo_sys demo_codec demo_image b l\<rparr>)"
proof (rule print_file_info_row)
  show "ccos_parse_file_name demo_codec (ccos_get_file_name demo_codec b demo_image) \<noteq> None"
    using assms by (auto simp: demo_codec_def)
  show "\<forall>n. calloc_ok demo_sys n" by (simp add: demo_sys_def)
qed

theorem traverse_visits_each_entry_once_in_preorder_witness:
  "\<exists>s'. traverse_ccos_image 2 demo_sys demo_codec 1 demo_image [] 0
          (Some (print_file_info demo_sys demo_codec)) (Some (print_file_info demo_sys demo_codec))
          \<lparr>arg = (), env = demo_host, calls = []\<rparr> = Some (0, s')
      \<and> calls s' = [OnDir 2 [] 0, OnFile 3 ''/docs'' 1, OnFile 4 ''/docs'' 1, OnFile 5 [] 0]
      \<and> env s' = demo_host\<lparr>stdout :=
            listed_row demo_sys demo_codec demo_image 2 0 @ listed_row demo_sys demo_codec demo_image 3 1
              @ listed_row demo_sys demo_codec demo_image 4 1 @ listed_row demo_sys demo_codec demo_image 5 0\<rparr>
      \<and> {b. reachable demo_codec demo_image 1 b} = {2, 3, 4, 5}"
proof -
  let ?pfi = "print_file_info demo_sys demo_codec"
  let ?s = "\<lparr>arg = (), env = demo_host, calls = []\<rparr>"
  have dec: "decodes_to demo_codec demo_image 1 demo_forest"
    by (simp add: decodes_to_def demo_codec_def demo_forest_def)
  have tree: "distinct (forest_blocks demo_forest)"
    by (simp add: demo_forest_def)
  have fuel: "forest_depth demo_forest < 2"
    by (simp add: demo_forest_def)
  have mem: "calloc_ok demo_sys PATH_MAX"
    by (simp add: demo_sys_def)
  have cont: "all_continue ?pfi ?pfi demo_image (walk_order demo_codec demo_image [] 0 demo_forest)
      (arg ?s, env ?s)"
    by (simp add: demo_walk_order demo_print_file_info)
  have effect: "visit_all ?pfi ?pfi demo_image
        [OnDir 2 [] 0, OnFile 3 ''/docs'' 1, OnFile 4 ''/docs'' 1, OnFile 5 [] 0] ((), demo_host) =
      ((), demo_host\<lparr>stdout :=
            listed_row demo_sys demo_codec demo_image 2 0 @ listed_row demo_sys demo_codec demo_image 3 1
              @ listed_row demo_sys demo_codec demo_image 4 1 @ listed_row demo_sys demo_codec demo_image 5 0\<rparr>)"
    by (simp add: demo_print_file_info demo_host_def)
  obtain s' evs where
    run: "traverse_ccos_image 2 demo_sys demo_codec 1 demo_image [] 0 (Some ?pfi) (Some ?pfi) ?s = Some (0, s')"
    and evs: "evs = walk_order demo_codec demo_image [] 0 demo_forest"
    and eff: "(arg s', env s') = visit_all ?pfi ?pfi demo_image evs (arg ?s, env ?s)"
    and log: "calls s' = calls ?s @ evs"
    and every: "set (map ev_block evs) = {b. reachable demo_codec demo_image 1 b}"
    using traverse_visits_each_entry_once_in_preorder [OF dec tree fuel mem cont] by blast
  have evs': "evs = [OnDir 2 [] 0, OnFile 3 ''/docs'' 1, OnFile 4 ''/docs'' 1, OnFile 5 [] 0]"
    using evs by (simp only: demo_walk_order)
  have "env s' = snd (visit_all ?pfi ?pfi demo_image evs (arg ?s, env ?s))"
    using eff [symmetric] by simp
  then have out: "env s' = demo_host\<lparr>stdout :=
            listed_row demo_sys demo_codec demo_image 2 0 @ listed_row demo_sys demo_codec demo_image 3 1
              @ listed_row demo_sys demo_codec demo_image 4 1 @ listed_row demo_sys demo_codec demo_image 5 0\<rparr>"
    unfolding evs' using effect by simp
  have log': "calls s' = [OnDir 2 [] 0, OnFile 3 ''/docs'' 1, OnFile 4 ''/docs'' 1, OnFile 5 [] 0]"
    using log evs' by simp
  have reach: "{b. reachable demo_codec demo_image 1 b} = {2, 3, 4, 5}"
    using every [symmetric] unfolding evs' by auto
  show ?thesis
    using run log' out reach by blast
qed

subsection \<open>A directory that does not decode\<close>

lemma calls_run_events_filter:
  "calls (run_events on_file on_dir data evs s) =
   calls s @ filter (\<lambda>ev. visitor_for on_file on_dir ev \<noteq> None) evs"
proof (induction evs arbitrary: s)
  case Nil
  show ?case by (simp add: run_events_Nil)
next
  case (Cons ev evs)
  show ?case
  proof (cases "visitor_for on_file on_dir ev")
    case None
    then show ?thesis by (simp add: run_events_Cons Cons.IH invoke_def)
  next
    case (Some f)
    then show ?thesis by (simp add: run_events_Cons Cons.IH invoke_Some_calls)
  qed
qed

lemma walk_fails_on_path:
  "fail_path_ok cdc data start frames \<Longrightarrow> fail_path_depth frames < fuel \<Longrightarrow>
   calloc_ok sy PATH_MAX \<Longrightarrow>
   all_ok on_file on_dir data (fail_path_events cdc data dirname level frames) \<Longrightarrow>
   traverse_ccos_image fuel sy cdc start data dirname level on_file on_dir s =
   Some (- 1, run_events on_file on_dir data (fail_path_events cdc data dirname level frames) s)"
proof (induction frames arbitrary: start fuel dirname level s)
  case Nil
  obtain k where "fuel = Suc k" using Nil.prems(2) by (cases fuel) auto
  then show ?case using Nil.prems(1) by (simp add: run_events_Nil)
next
  case (Cons fr frames)
  obtain pre d post where fr: "fr = Frame pre d post" by (cases fr)
  obtain k where k: "fuel = Suc k" and kpre: "forest_depth pre \<le> k" and krec: "fail_path_depth frames < k"
    using Cons.prems(2) by (cases fuel) (auto simp: fr)
  have cs: "ccos_get_dir_contents cdc start data = Some (map root_of pre @ d # post)"
    and fo: "forest_ok cdc data pre"
    and isd: "ccos_is_dir cdc d data"
    and below: "fail_path_ok cdc data d frames"
    using Cons.prems(1) by (simp_all add: fr)
  obtain nm ty where nm: "ccos_parse_file_name cdc (ccos_get_file_name cdc d data) = Some (nm, ty)"
    using Cons.prems(1) by (auto simp: fr)
  let ?sub = "subdir_path cdc data dirname d"
  have ok_pre: "all_ok on_file on_dir data (walk_order cdc data dirname level pre)"
    and ok_d: "\<forall>s. fst (invoke on_dir data (OnDir d dirname level) s) = RESULT_OK"
    and ok_rec: "all_ok on_file on_dir data (fail_path_events cdc data ?sub (level + 1) frames)"
    using Cons.prems(4) by (simp_all add: fr all_ok_append all_ok_Cons)
  let ?s1 = "run_events on_file on_dir data (walk_order cdc data dirname level pre) s"
  obtain s2 where s2: "invoke on_dir data (OnDir d dirname level) ?s1 = (RESULT_OK, s2)"
    using ok_d by (auto elim: invoke_ok)
  have rec: "traverse_ccos_image k sy cdc d data ?sub (level + 1) on_file on_dir s2 =
      Some (- 1, run_events on_file on_dir data (fail_path_events cdc data ?sub (level + 1) frames) s2)"
    by (rule Cons.IH [OF below krec Cons.prems(3) ok_rec])
  have "traverse_ccos_image fuel sy cdc start data dirname level on_file on_dir s =
        traverse_entries k sy cdc (map root_of pre @ d # post) data dirname level on_file on_dir s"
    by (simp add: k cs)
  also have "\<dots> = traverse_entries k sy cdc (d # post) data dirname level on_file on_dir ?s1"
    by (rule walk_forest [OF fo kpre Cons.prems(3) ok_pre])
  also have "\<dots> = Some (- 1, run_events on_file on_dir data (fail_path_events cdc data ?sub (level + 1) frames) s2)"
    using isd Cons.prems(3) rec by (simp add: nm s2 subdir_path_def)
  finally show ?case
    by (simp add: fr run_events_append run_events_Cons s2)
qed

text \<open>
  C7. When the child list of the start block does not decode, or the walk, with
  visitors that continue, comes to a directory at any depth whose child list does not
  decode, \<open>traverse_ccos_image\<close> returns \<open>-1\<close> at the outermost level. The visitors
  have been invoked on the entries before that directory and on the directories that
  lead to it and on nothing else: the entries after them at every level are not
  visited.
\<close>

theorem decode_failure_aborts_walk:
  assumes "fail_path_ok cdc data start frames"
    and "fail_path_depth frames < fuel"
    and "calloc_ok sy PATH_MAX"
    and "all_ok on_file on_dir data (fail_path_events cdc data dirname level frames)"
  shows "\<exists>s'. traverse_ccos_image fuel sy cdc start data dirname level on_file on_dir s = Some (- 1, s')
      \<and> s' = run_events on_file on_dir data (fail_path_events cdc data dirname level frames) s
      \<and> calls s' = calls s @ filter (\<lambda>ev. visitor_for on_file on_dir ev \<noteq> None)
                                (fail_path_events cdc data dirname level frames)"
  using walk_fails_on_path [OF assms] calls_run_events_filter by blast

theorem decode_failure_aborts_walk_witness:
  "\<exists>s'. traverse_ccos_image 2 demo_sys demo_broken 1 demo_image [] 0
          (Some continue_visitor) (Some continue_visitor) \<lparr>arg = (), env = demo_host, calls = []\<rparr> = Some (- 1, s')
      \<and> calls s' = [OnFile 5 [] 0, OnDir 2 [] 0]"
proof -
  have path: "fail_path_ok demo_broken demo_image 1 [Frame [FileNode 5] 2 [3]]"
    by (simp add: demo_broken_def demo_codec_def)
  have fuel: "fail_path_depth [Frame [FileNode 5] 2 [3]] < 2"
    by simp
  have mem: "calloc_ok demo_sys PATH_MAX"
    by (simp add: demo_sys_def)
  have ok: "all_ok (Some continue_visitor) (Some continue_visitor) demo_image
      (fail_path_events demo_broken demo_image [] 0 [Frame [FileNode 5] 2 [3]])"
    by (simp add: all_ok_def invoke_Some_fst continue_visitor_def)
  show ?thesis
    using decode_failure_aborts_walk [OF path fuel mem ok, of "\<lparr>arg = (), env = demo_host, calls = []\<rparr>"]
    by simp
qed

subsection \<open>The stop-early verdict below the top level\<close>

text \<open>
  C3. On the small image the locator looks for the name of file 3, which lies in
  directory 2. The visitor returns \<open>RESULT_BREAK\<close> on file 3; the nested call of
  \<open>traverse_ccos_image\<close> returns 0, which its caller does not tell from a completed
  directory, so the walk goes on with file 5, the next entry of the root, invokes the
  visitor on it and records block 5.
\<close>

theorem stop_early_in_subdirectory_continues_with_parent_siblings:
  "fst (find_file_on_file demo_codec 3 demo_image ''/docs'' 1
          \<lparr>target_name = ''a~Text~'', target_inode = 0\<rparr> demo_host) = RESULT_BREAK
   \<and> traverse_ccos_image 2 demo_sys demo_codec 1 demo_image [] 0 (Some (find_file_on_file demo_codec)) None
        \<lparr>arg = \<lparr>target_name = ''a~Text~'', target_inode = 0\<rparr>, env = demo_host, calls = []\<rparr>
      = Some (0, \<lparr>arg = \<lparr>target_name = ''a~Text~'', target_inode = 5\<rparr>, env = demo_host,
                  calls = [OnFile 3 ''/docs'' 1, OnFile 5 [] 0]\<rparr>)
   \<and> find_filename 2 demo_sys demo_codec 1 demo_image ''a~Text~'' demo_host = Some (Inr 5)"
  by (simp add: find_filename_def traverse_ccos_image_numeral demo_codec_def demo_sys_def invoke_def
      find_file_on_file_def replace_char_in_place_def snprintf_def PATH_MAX_def
      RESULT_OK_def RESULT_ERROR_def RESULT_BREAK_def)

subsection \<open>The locator\<close>

lemma forest_files_iff:
  "forest_ok cdc data ts \<Longrightarrow>
   b \<in> set (forest_files ts) \<longleftrightarrow> b \<in> set (forest_blocks ts) \<and> \<not> ccos_is_dir cdc b data"
  by (induction ts rule: forest_blocks.induct) auto

lemma find_visit_file:
  assumes "ccos_short_string_to_string cdc (ccos_get_file_name cdc b data) \<noteq> None"
  shows "invoke (Some (find_file_on_file cdc)) data (OnFile b dirname level) s =
     (if name_matches cdc data (target_name (arg s)) b
      then (RESULT_BREAK, \<lparr>arg = (arg s)\<lparr>target_inode := b\<rparr>, env = env s,
                            calls = calls s @ [OnFile b dirname level]\<rparr>)
      else (RESULT_OK, \<lparr>arg = arg s, env = env s, calls = calls s @ [OnFile b dirname level]\<rparr>))"
  using assms by (auto simp: invoke_def find_file_on_file_def name_matches_def)

lemma find_walk:
  "forest_ok cdc data ts \<Longrightarrow> forest_depth ts \<le> fuel \<Longrightarrow> calloc_ok sy PATH_MAX \<Longrightarrow>
   (\<forall>b \<in> set (forest_files ts). ccos_short_string_to_string cdc (ccos_get_file_name cdc b data) \<noteq> None) \<Longrightarrow>
   \<exists>s'. traverse_entries fuel sy cdc (map root_of ts) data dirname level
           (Some (find_file_on_file cdc)) None s = Some (0, s')
      \<and> target_name (arg s') = target_name (arg s)
      \<and> (if \<exists>b \<in> set (forest_files ts). name_matches cdc data (target_name (arg s)) b
          then target_inode (arg s') \<in> set (forest_files ts)
               \<and> name_matches cdc data (target_name (arg s)) (target_inode (arg s'))
          else target_inode (arg s') = target_inode (arg s))"
proof (induction ts arbitrary: fuel dirname level s rule: forest_blocks.induct)
  case 1
  show ?case by simp
next
  case (2 b ts)
  have conv: "ccos_short_string_to_string cdc (ccos_get_file_name cdc b data) \<noteq> None"
    using "2.prems"(4) by simp
  have nd: "\<not> ccos_is_dir cdc b data" using "2.prems"(1) by simp
  show ?case
  proof (cases "name_matches cdc data (target_name (arg s)) b")
    case True
    then show ?thesis
      using nd by (auto simp: find_visit_file [OF conv] RESULT_OK_def RESULT_BREAK_def RESULT_ERROR_def)
  next
    case False
    let ?s1 = "\<lparr>arg = arg s, env = env s, calls = calls s @ [OnFile b dirname level]\<rparr>"
    obtain s' where s': "traverse_entries fuel sy cdc (map root_of ts) data dirname level
           (Some (find_file_on_file cdc)) None ?s1 = Some (0, s')"
      and tn: "target_name (arg s') = target_name (arg ?s1)"
      and res: "if \<exists>b \<in> set (forest_files ts). name_matches cdc data (target_name (arg ?s1)) b
          then target_inode (arg s') \<in> set (forest_files ts)
               \<and> name_matches cdc data (target_name (arg ?s1)) (target_inode (arg s'))
          else target_inode (arg s') = target_inode (arg ?s1)"
      using "2.IH" [of fuel dirname level ?s1] "2.prems" by auto
    have run: "traverse_entries fuel sy cdc (map root_of (FileNode b # ts)) data dirname level
           (Some (find_file_on_file cdc)) None s = Some (0, s')"
      using nd False s' by (simp add: find_visit_file [OF conv])
    show ?thesis
      using run tn res False by (auto split: if_splits)
  qed
next
  case (3 b sub ts)
  obtain k where k: "fuel = Suc k" and kd: "forest_depth sub \<le> k"
    using "3.prems"(2) by (cases fuel) auto
  obtain nm ty where nm: "ccos_parse_file_name cdc (ccos_get_file_name cdc b data) = Some (nm, ty)"
    using "3.prems"(1) by auto
  let ?sub = "snprintf PATH_MAX (dirname @ ''/'' @ nm)"
  obtain s1 where s1: "traverse_entries k sy cdc (map root_of sub) data ?sub (level + 1)
           (Some (find_file_on_file cdc)) None s = Some (0, s1)"
      and tn1: "target_name (arg s1) = target_name (arg s)"
      and res1: "if \<exists>b \<in> set (forest_files sub). name_matches cdc data (target_name (arg s)) b
          then target_inode (arg s1) \<in> set (forest_files sub)
               \<and> name_matches cdc data (target_name (arg s)) (target_inode (arg s1))
          else target_inode (arg s1) = target_inode (arg s)"
    using "3.IH"(1) [of k ?sub "level + 1" s] "3.prems" kd by auto
  obtain s2 where s2: "traverse_entries fuel sy cdc (map root_of ts) data dirname level
           (Some (find_file_on_file cdc)) None s1 = Some (0, s2)"
      and tn2: "target_name (arg s2) = target_name (arg s1)"
      and res2: "if \<exists>b \<in> set (forest_files ts). name_matches cdc data (target_name (arg s1)) b
          then target_inode (arg s2) \<in> set (forest_files ts)
               \<and> name_matches cdc data (target_name (arg s1)) (target_inode (arg s2))
          else target_inode (arg s2) = target_inode (arg s1)"
    using "3.IH"(2) [of fuel dirname level s1] "3.prems" by auto
  have run: "traverse_entries fuel sy cdc (map root_of (DirNode b sub # ts)) data dirname level
           (Some (find_file_on_file cdc)) None s = Some (0, s2)"
    using "3.prems"(1,3) s1 s2 by (simp add: nm invoke_def k)
  show ?case
    using run tn1 tn2 res1 res2 by (auto split: if_splits)
qed

lemma find_filename_well_formed:
  assumes dec: "decodes_to cdc data superblock ts"
    and fuel: "forest_depth ts < fuel"
    and mem: "calloc_ok sy PATH_MAX"
    and names: "\<forall>b \<in> set (forest_files ts). ccos_short_string_to_string cdc (ccos_get_file_name cdc b data) \<noteq> None"
    and nonzero: "\<forall>b \<in> set (forest_files ts). b \<noteq> 0"
  shows "if \<exists>b \<in> set (forest_files ts). name_matches cdc data filename b
         then \<exists>inode \<in> set (forest_files ts). name_matches cdc data filename inode
                \<and> find_filename fuel sy cdc superblock data filename h = Some (Inr inode)
         else find_filename fuel sy cdc superblock data filename h = Some (Inl FileNotFound)"
proof -
  obtain k where k: "fuel = Suc k" and kd: "forest_depth ts \<le> k"
    using fuel by (cases fuel) auto
  have fo: "forest_ok cdc data ts" and cs: "ccos_get_dir_contents cdc superblock data = Some (map root_of ts)"
    using dec by (simp_all add: decodes_to_def)
  let ?s = "\<lparr>arg = \<lparr>target_name = filename, target_inode = 0\<rparr>, env = h, calls = []\<rparr>"
  obtain s' where run: "traverse_entries k sy cdc (map root_of ts) data [] 0
           (Some (find_file_on_file cdc)) None ?s = Some (0, s')"
      and res: "if \<exists>b \<in> set (forest_files ts). name_matches cdc data (target_name (arg ?s)) b
          then target_inode (arg s') \<in> set (forest_files ts)
               \<and> name_matches cdc data (target_name (arg ?s)) (target_inode (arg s'))
          else target_inode (arg s') = target_inode (arg ?s)"
    using find_walk [OF fo kd mem names, of "[]" 0 ?s] by auto
  have ff: "find_filename fuel sy cdc superblock data filename h =
      (if target_inode (arg s') = 0 then Some (Inl FileNotFound) else Some (Inr (target_inode (arg s'))))"
    using run by (simp add: find_filename_def k cs)
  show ?thesis
  proof (cases "\<exists>b \<in> set (forest_files ts). name_matches cdc data filename b")
    case True
    then have "target_inode (arg s') \<in> set (forest_files ts)"
      and "name_matches cdc data filename (target_inode (arg s'))"
      using res by simp_all
    moreover from this nonzero have "target_inode (arg s') \<noteq> 0" by auto
    ultimately show ?thesis using True ff by auto
  next
    case False
    then have "target_inode (arg s') = 0" using res by simp
    then show ?thesis using False ff by simp
  qed
qed

lemma find_filename_never_zero:
  "find_filename fuel sy cdc superblock data filename h \<noteq> Some (Inr 0)"
  by (auto simp: find_filename_def split: option.splits prod.splits)

text \<open>
  C4. \<open>find_filename\<close> never returns block 0. On a well-formed image whose files have
  nonzero blocks and names that decode, it returns a block if and only if some file
  below the superblock has a decoded, separator-substituted name equal to the target;
  the block it returns is such a file, and when there is none it fails with the
  message that the file is not in the image.
\<close>

theorem find_filename_succeeds_iff_some_file_matches:
  assumes "decodes_to cdc data superblock ts"
    and "forest_depth ts < fuel"
    and "calloc_ok sy PATH_MAX"
    and "\<forall>b \<in> set (forest_files ts). b \<noteq> 0
            \<and> ccos_short_string_to_string cdc (ccos_get_file_name cdc b data) \<noteq> None"
  shows "find_filename fuel sy cdc superblock data filename h \<noteq> Some (Inr 0)
    \<and> ((\<exists>inode. find_filename fuel sy cdc superblock data filename h = Some (Inr inode) \<and> inode \<noteq> 0)
        \<longleftrightarrow> (\<exists>b. reachable cdc data superblock b \<and> \<not> ccos_is_dir cdc b data
                  \<and> name_matches cdc data filename b))
    \<and> (\<forall>inode. find_filename fuel sy cdc superblock data filename h = Some (Inr inode)
          \<longrightarrow> reachable cdc data superblock inode \<and> \<not> ccos_is_dir cdc inode data
              \<and> name_matches cdc data filename inode)
    \<and> ((\<nexists>b. reachable cdc data superblock b \<and> \<not> ccos_is_dir cdc b data
                  \<and> name_matches cdc data filename b)
          \<longrightarrow> find_filename fuel sy cdc superblock data filename h = Some (Inl FileNotFound))"
proof -
  have fo: "forest_ok cdc data ts" using assms(1) by (simp add: decodes_to_def)
  have files: "\<And>b. b \<in> set (forest_files ts) \<longleftrightarrow> reachable cdc data superblock b \<and> \<not> ccos_is_dir cdc b data"
    using forest_files_iff [OF fo] reachable_iff_forest [OF assms(1)] by simp
  have ex: "(\<exists>b \<in> set (forest_files ts). name_matches cdc data filename b) \<longleftrightarrow>
      (\<exists>b. reachable cdc data superblock b \<and> \<not> ccos_is_dir cdc b data \<and> name_matches cdc data filename b)"
    using files by auto
  have names: "\<forall>b \<in> set (forest_files ts). ccos_short_string_to_string cdc (ccos_get_file_name cdc b data) \<noteq> None"
    and nonzero: "\<forall>b \<in> set (forest_files ts). b \<noteq> 0"
    using assms(4) by simp_all
  note wf = find_filename_well_formed [OF assms(1-3) names nonzero, of filename h]
  show ?thesis
  proof (cases "\<exists>b \<in> set (forest_files ts). name_matches cdc data filename b")
    case True
    then obtain inode where i: "inode \<in> set (forest_files ts)" "name_matches cdc data filename inode"
      "find_filename fuel sy cdc superblock data filename h = Some (Inr inode)"
      using wf by auto
    then have "inode \<noteq> 0" using nonzero by auto
    then show ?thesis using i True ex files by auto
  next
    case False
    then have "find_filename fuel sy cdc superblock data filename h = Some (Inl FileNotFound)"
      using wf by simp
    then show ?thesis using False ex by auto
  qed
qed

theorem find_filename_succeeds_iff_some_file_matches_witness:
  "find_filename 2 demo_sys demo_codec 1 demo_image ''b_c~Text~'' demo_host \<noteq> Some (Inr 0)
   \<and> ((\<exists>inode. find_filename 2 demo_sys demo_codec 1 demo_image ''b_c~Text~'' demo_host = Some (Inr inode)
               \<and> inode \<noteq> 0)
        \<longleftrightarrow> (\<exists>b. reachable demo_codec demo_image 1 b \<and> \<not> ccos_is_dir demo_codec b demo_image
                  \<and> name_matches demo_codec demo_image ''b_c~Text~'' b))
   \<and> find_filename 2 demo_sys demo_codec 1 demo_image ''b_c~Text~'' demo_host = Some (Inr 4)"
proof -
  have dec: "decodes_to demo_codec demo_image 1 demo_forest"
    by (simp add: decodes_to_def demo_codec_def demo_forest_def)
  have fuel: "forest_depth demo_forest < 2"
    by (simp add: demo_forest_def)
  have mem: "calloc_ok demo_sys PATH_MAX"
    by (simp add: demo_sys_def)
  have names: "\<forall>b \<in> set (forest_files demo_forest). b \<noteq> 0
      \<and> ccos_short_string_to_string demo_codec (ccos_get_file_name demo_codec b demo_image) \<noteq> None"
    by (simp add: demo_forest_def demo_codec_def)
  have run: "find_filename 2 demo_sys demo_codec 1 demo_image ''b_c~Text~'' demo_host = Some (Inr 4)"
    by (simp add: find_filename_def traverse_ccos_image_numeral demo_codec_def demo_sys_def invoke_def
        find_file_on_file_def replace_char_in_place_def snprintf_def PATH_MAX_def
        RESULT_OK_def RESULT_ERROR_def RESULT_BREAK_def)
  show ?thesis
    using find_filename_succeeds_iff_some_file_matches [OF dec fuel mem names, of "''b_c~Text~''" demo_host] run
    by blast
qed

section \<open>Properties of the extractor\<close>

subsection \<open>The loop over the block chain\<close>

lemma u32_remaining:
  fixes cur fs :: "32 word"
  assumes "cur \<le> fs"
  shows "unat (fs - cur) = unat fs - unat cur"
  using assms by (simp add: unat_sub)

lemma u32_advance:
  fixes cur fs :: "32 word"
  assumes "cur \<le> fs" and "w \<le> unat fs - unat cur"
  shows "unat (cur + of_nat w) = unat cur + w" and "cur + of_nat w \<le> fs"
proof -
  have le: "unat cur \<le> unat fs" using assms(1) by (simp add: word_le_nat_alt)
  have b: "unat fs < 2 ^ 32" using unsigned_less [of fs] by simp
  have "w \<le> unat fs" using assms(2) by simp
  then have "unat (of_nat w :: 32 word) = w"
    by (rule le_unat_uoi)
  moreover have "unat cur + w < 2 ^ 32" using assms(2) le b by linarith
  ultimately show u: "unat (cur + of_nat w) = unat cur + w"
    by (simp add: unat_add_lem [THEN iffD1])
  show "cur + of_nat w \<le> fs"
    using u assms(2) le by (simp add: word_le_nat_alt)
qed

lemma transmit_room:
  assumes "files h p = Some old" and "length bytes \<le> free_space h"
  shows "transmit p bytes h =
     (length bytes, h\<lparr>files := (files h)(p \<mapsto> old @ bytes), free_space := free_space h - length bytes\<rparr>)"
  using assms by (simp add: transmit_def Let_def min_def)

lemma transmit_any:
  assumes "files h p = Some old"
  shows "transmit p bytes h =
     (min (length bytes) (free_space h),
      h\<lparr>files := (files h)(p \<mapsto> old @ take (min (length bytes) (free_space h)) bytes),
        free_space := free_space h - min (length bytes) (free_space h)\<rparr>)"
  using assms by (simp add: transmit_def Let_def)

lemma fclose_room:
  assumes "files h (file_path f) = Some old" and "length (pending f) \<le> free_space h"
  shows "fclose f h =
     (0, h\<lparr>files := (files h)(file_path f \<mapsto> old @ pending f),
           free_space := free_space h - length (pending f)\<rparr>)"
  by (simp add: fclose_def transmit_room [OF assms])

lemma fclose_any:
  assumes "files h (file_path f) = Some old"
  shows "\<exists>t. files (snd (fclose f h)) (file_path f) = Some (old @ t) \<and> length t \<le> length (pending f)"
proof -
  let ?n = "min (length (pending f)) (free_space h)"
  have "files (snd (fclose f h)) (file_path f) = Some (old @ take ?n (pending f))"
    by (simp add: fclose_def transmit_any [OF assms])
  moreover have "length (take ?n (pending f)) \<le> length (pending f)" by simp
  ultimately show ?thesis by blast
qed

lemma fwrite_room:
  assumes fl0: "files h (file_path f) = Some old"
    and room: "length (pending f) + length bytes \<le> free_space h"
  obtains t u where "t @ u = pending f @ bytes"
    and "fwrite sy bytes f h =
      (length bytes, f\<lparr>pending := u\<rparr>,
       h\<lparr>files := (files h)(file_path f \<mapsto> old @ t), free_space := free_space h - length t\<rparr>)"
proof -
  let ?held = "pending f @ bytes"
  let ?now = "min (fwrite_transmits sy (length (pending f)) (length bytes)) (length ?held)"
  have len: "length (take ?now ?held) = ?now" by simp
  have fits: "length (take ?now ?held) \<le> free_space h"
    using room by (simp only: len) simp
  have tr: "transmit (file_path f) (take ?now ?held) h =
      (?now, h\<lparr>files := (files h)(file_path f \<mapsto> old @ take ?now ?held),
               free_space := free_space h - ?now\<rparr>)"
    using transmit_room [OF fl0 fits] by (simp only: len)
  have "fwrite sy bytes f h =
      (length bytes, f\<lparr>pending := drop ?now ?held\<rparr>,
       h\<lparr>files := (files h)(file_path f \<mapsto> old @ take ?now ?held),
         free_space := free_space h - length (take ?now ?held)\<rparr>)"
    unfolding fwrite_def Let_def tr by (simp only: prod.case len) simp
  moreover have "take ?now ?held @ drop ?now ?held = ?held" by (rule append_take_drop_id)
  ultimately show ?thesis by (rule that [rotated])
qed

lemma fwrite_any:
  assumes fl0: "files h (file_path f) = Some old"
  obtains n t u h1 where "t @ u = pending f @ bytes"
    and "fwrite sy bytes f h = (n, f\<lparr>pending := u\<rparr>, h1)"
    and "files h1 (file_path f) = Some (old @ t)"
proof -
  let ?held = "pending f @ bytes"
  let ?now = "min (fwrite_transmits sy (length (pending f)) (length bytes)) (length ?held)"
  let ?n = "min ?now (free_space h)"
  let ?h1 = "h\<lparr>files := (files h)(file_path f \<mapsto> old @ take ?n (take ?now ?held)),
               free_space := free_space h - ?n\<rparr>"
  have len: "length (take ?now ?held) = ?now" by simp
  have tr: "transmit (file_path f) (take ?now ?held) h = (?n, ?h1)"
    using transmit_any [OF fl0, of "take ?now ?held"] by (simp only: len)
  have nn: "?n \<le> ?now" by (rule min.cobounded1)
  show ?thesis
  proof (cases "?n < ?now")
    case True
    have tk: "take ?n (take ?now ?held) = take ?n ?held"
      using nn by (simp only: take_take min_absorb1)
    have "take ?n ?held @ drop ?n ?held = ?held" by (rule append_take_drop_id)
    moreover have "fwrite sy bytes f h = (?n - length (pending f), f\<lparr>pending := drop ?n ?held\<rparr>, ?h1)"
      unfolding fwrite_def Let_def tr using True by (simp only: prod.case if_True)
    moreover have "files ?h1 (file_path f) = Some (old @ take ?n ?held)"
      by (simp only: tk) simp
    ultimately show ?thesis by (rule that)
  next
    case False
    then have eq: "?n = ?now" using nn by linarith
    have tk: "take ?n (take ?now ?held) = take ?now ?held"
      by (simp only: eq take_take min.idem)
    have "take ?now ?held @ drop ?now ?held = ?held" by (rule append_take_drop_id)
    moreover have "fwrite sy bytes f h = (length bytes, f\<lparr>pending := drop ?now ?held\<rparr>, ?h1)"
      unfolding fwrite_def Let_def tr using False by (simp only: prod.case if_False)
    moreover have "files ?h1 (file_path f) = Some (old @ take ?now ?held)"
      by (simp only: tk) simp
    ultimately show ?thesis by (rule that)
  qed
qed

lemma chain_data_Cons:
  "ccos_get_block_data cdc b data = Some payload \<Longrightarrow>
   chain_data cdc data (b # bs) = payload @ chain_data cdc data bs"
  by (simp add: chain_data_def)

lemma take_min_append:
  "take r (xs @ ys) = take (min r (length xs)) xs @ take (r - min r (length xs)) ys"
  by (cases "r < length xs") (simp_all add: min_def)

lemma write_blocks_step:
  assumes pl: "ccos_get_block_data cdc b data = Some payload"
    and le: "cur \<le> fs"
    and w: "w = min (unat fs - unat cur) (length payload)"
  shows "write_blocks sy cdc data fs (b # bs) cur f h =
     (case fwrite sy (take w payload) f h of
        (written, f1, h1) \<Rightarrow>
          if written < w then (RESULT_ERROR, snd (fclose f1 h1))
          else write_blocks sy cdc data fs bs (cur + of_nat w) f1 h1)"
proof -
  have ws: "(if unat (fs - cur) < length payload then unat (fs - cur) else length payload) = w"
    by (simp add: u32_remaining [OF le] min_def w)
  show ?thesis
    by (simp only: write_blocks.simps pl option.case Let_def ws)
qed

lemma write_blocks_at_size:
  "files h (file_path f) = Some old \<Longrightarrow> length (pending f) \<le> free_space h \<Longrightarrow>
   write_blocks sy cdc data fs bs fs f h =
     (if \<forall>b \<in> set bs. ccos_get_block_data cdc b data \<noteq> None then RESULT_OK else RESULT_ERROR,
      h\<lparr>files := (files h)(file_path f \<mapsto> old @ pending f),
        free_space := free_space h - length (pending f)\<rparr>)"
proof (induction bs arbitrary: f h old)
  case Nil
  have "write_blocks sy cdc data fs [] fs f h = (RESULT_OK, snd (fclose f h))" by simp
  moreover have "(if \<forall>b \<in> set []. ccos_get_block_data cdc b data \<noteq> None then RESULT_OK else RESULT_ERROR)
      = RESULT_OK" by simp
  ultimately show ?case by (simp only: fclose_room [OF Nil.prems] snd_conv)
next
  case (Cons b bs)
  show ?case
  proof (cases "ccos_get_block_data cdc b data")
    case None
    then have "write_blocks sy cdc data fs (b # bs) fs f h = (RESULT_ERROR, snd (fclose f h))" by simp
    moreover have "(if \<forall>b \<in> set (b # bs). ccos_get_block_data cdc b data \<noteq> None then RESULT_OK else RESULT_ERROR)
        = RESULT_ERROR" using None by simp
    ultimately show ?thesis by (simp only: fclose_room [OF Cons.prems] snd_conv)
  next
    case (Some payload)
    have room: "length (pending f) + length (take 0 payload) \<le> free_space h"
      using Cons.prems(2) by simp
    obtain t u where tu: "t @ u = pending f @ take 0 payload"
      and fw: "fwrite sy (take 0 payload) f h =
          (length (take 0 payload), f\<lparr>pending := u\<rparr>,
           h\<lparr>files := (files h)(file_path f \<mapsto> old @ t), free_space := free_space h - length t\<rparr>)"
      by (rule fwrite_room [OF Cons.prems(1) room])
    let ?f1 = "f\<lparr>pending := u\<rparr>"
    let ?h1 = "h\<lparr>files := (files h)(file_path f \<mapsto> old @ t), free_space := free_space h - length t\<rparr>"
    have tu': "t @ u = pending f" using tu by simp
    have lens: "length t + length u = length (pending f)"
      using tu' [THEN arg_cong, of length] by simp
    have w0: "(0::nat) = min (unat fs - unat fs) (length payload)" by simp
    have "write_blocks sy cdc data fs (b # bs) fs f h =
        (case fwrite sy (take 0 payload) f h of
           (written, f1, h1) \<Rightarrow>
             if written < 0 then (RESULT_ERROR, snd (fclose f1 h1))
             else write_blocks sy cdc data fs bs (fs + of_nat 0) f1 h1)"
      by (rule write_blocks_step [OF Some order_refl w0])
    then have step: "write_blocks sy cdc data fs (b # bs) fs f h = write_blocks sy cdc data fs bs fs ?f1 ?h1"
      by (simp only: fw prod.case) simp
    have f1: "files ?h1 (file_path ?f1) = Some (old @ t)" by simp
    have r1: "length (pending ?f1) \<le> free_space ?h1"
      using Cons.prems(2) lens by simp
    have hh: "?h1\<lparr>files := (files ?h1)(file_path ?f1 \<mapsto> (old @ t) @ pending ?f1),
                  free_space := free_space ?h1 - length (pending ?f1)\<rparr> =
        h\<lparr>files := (files h)(file_path f \<mapsto> old @ pending f),
          free_space := free_space h - length (pending f)\<rparr>"
      using lens by (simp add: tu' [symmetric])
    have v: "(if \<forall>b \<in> set (b # bs). ccos_get_block_data cdc b data \<noteq> None then RESULT_OK else RESULT_ERROR)
        = (if \<forall>b \<in> set bs. ccos_get_block_data cdc b data \<noteq> None then RESULT_OK else RESULT_ERROR)"
      using Some by simp
    have rest: "write_blocks sy cdc data fs bs fs ?f1 ?h1 =
        (if \<forall>b \<in> set bs. ccos_get_block_data cdc b data \<noteq> None then RESULT_OK else RESULT_ERROR,
         ?h1\<lparr>files := (files ?h1)(file_path ?f1 \<mapsto> (old @ t) @ pending ?f1),
             free_space := free_space ?h1 - length (pending ?f1)\<rparr>)"
      by (rule Cons.IH [OF f1 r1])
    show ?thesis
      by (simp only: step rest hh v)
  qed
qed

lemma write_blocks_past_size:
  "\<forall>b \<in> set pre. ccos_get_block_data cdc b data \<noteq> None \<Longrightarrow> files h (file_path f) = Some old \<Longrightarrow>
   cur \<le> fs \<Longrightarrow> length (pending f) + (unat fs - unat cur) \<le> free_space h \<Longrightarrow>
   unat fs - unat cur \<le> length (chain_data cdc data pre) \<Longrightarrow>
   write_blocks sy cdc data fs (pre @ post) cur f h =
     (if \<forall>b \<in> set post. ccos_get_block_data cdc b data \<noteq> None then RESULT_OK else RESULT_ERROR,
      h\<lparr>files := (files h)(file_path f \<mapsto>
            old @ pending f @ take (unat fs - unat cur) (chain_data cdc data pre)),
        free_space := free_space h - (length (pending f) + (unat fs - unat cur))\<rparr>)"
proof (induction pre arbitrary: cur f h old)
  case Nil
  have "unat cur = unat fs"
    using Nil.prems(3,5) by (simp add: chain_data_def word_le_nat_alt)
  then have eq: "cur = fs" by (simp add: word_unat_eq_iff)
  have room: "length (pending f) \<le> free_space h" using Nil.prems(4) by simp
  have z: "old @ pending f @ take (unat fs - unat fs) (chain_data cdc data []) = old @ pending f"
    "length (pending f) + (unat fs - unat fs) = length (pending f)"
    by simp_all
  show ?case
    unfolding eq append_Nil z by (rule write_blocks_at_size [OF Nil.prems(2) room])
next
  case (Cons b pre)
  obtain payload where pl: "ccos_get_block_data cdc b data = Some payload"
    using Cons.prems(1) by auto
  let ?rem = "unat fs - unat cur"
  let ?w = "min ?rem (length payload)"
  have lw: "length (take ?w payload) = ?w" by simp
  have room: "length (pending f) + length (take ?w payload) \<le> free_space h"
    using Cons.prems(4) by simp
  obtain t u where tu: "t @ u = pending f @ take ?w payload"
    and fw: "fwrite sy (take ?w payload) f h =
        (length (take ?w payload), f\<lparr>pending := u\<rparr>,
         h\<lparr>files := (files h)(file_path f \<mapsto> old @ t), free_space := free_space h - length t\<rparr>)"
    by (rule fwrite_room [OF Cons.prems(2) room])
  let ?f1 = "f\<lparr>pending := u\<rparr>"
  let ?h1 = "h\<lparr>files := (files h)(file_path f \<mapsto> old @ t), free_space := free_space h - length t\<rparr>"
  have lens: "length t + length u = length (pending f) + ?w"
    using tu [THEN arg_cong, of length] by (simp only: length_append lw)
  have "write_blocks sy cdc data fs (b # pre @ post) cur f h =
      (case fwrite sy (take ?w payload) f h of
         (written, f1, h1) \<Rightarrow>
           if written < ?w then (RESULT_ERROR, snd (fclose f1 h1))
           else write_blocks sy cdc data fs (pre @ post) (cur + of_nat ?w) f1 h1)"
    by (rule write_blocks_step [OF pl Cons.prems(3) refl])
  then have step: "write_blocks sy cdc data fs ((b # pre) @ post) cur f h =
      write_blocks sy cdc data fs (pre @ post) (cur + of_nat ?w) ?f1 ?h1"
    by (simp only: fw prod.case lw append_Cons) simp
  have adv: "unat (cur + of_nat ?w) = unat cur + ?w" "cur + of_nat ?w \<le> fs"
    using u32_advance [OF Cons.prems(3), of ?w] by simp_all
  have rem': "unat fs - unat (cur + of_nat ?w) = ?rem - ?w" using adv(1) by simp
  have wr: "?w \<le> ?rem" by simp
  have room1: "length (pending ?f1) + (unat fs - unat (cur + of_nat ?w)) \<le> free_space ?h1"
    using Cons.prems(4) lens wr by (simp add: rem')
  have cd: "chain_data cdc data (b # pre) = payload @ chain_data cdc data pre"
    by (rule chain_data_Cons [OF pl])
  have cap: "unat fs - unat (cur + of_nat ?w) \<le> length (chain_data cdc data pre)"
    using Cons.prems(5) rem' by (simp add: cd) linarith
  have rest: "\<forall>b \<in> set pre. ccos_get_block_data cdc b data \<noteq> None"
    using Cons.prems(1) by simp
  have f1: "files ?h1 (file_path ?f1) = Some (old @ t)" by simp
  have tk: "take ?rem (chain_data cdc data (b # pre)) =
        take ?w payload @ take (?rem - ?w) (chain_data cdc data pre)"
    by (simp only: cd take_min_append)
  have content: "(old @ t) @ pending ?f1 @ take (unat fs - unat (cur + of_nat ?w)) (chain_data cdc data pre) =
      old @ pending f @ take ?rem (chain_data cdc data (b # pre))"
    using tu by (simp add: rem' tk)
  have space: "free_space ?h1 - (length (pending ?f1) + (unat fs - unat (cur + of_nat ?w))) =
      free_space h - (length (pending f) + ?rem)"
    using lens wr by (simp add: rem')
  have hh: "?h1\<lparr>files := (files ?h1)(file_path ?f1 \<mapsto>
                 (old @ t) @ pending ?f1 @ take (unat fs - unat (cur + of_nat ?w)) (chain_data cdc data pre)),
              free_space := free_space ?h1 - (length (pending ?f1) + (unat fs - unat (cur + of_nat ?w)))\<rparr> =
      h\<lparr>files := (files h)(file_path f \<mapsto> old @ pending f @ take ?rem (chain_data cdc data (b # pre))),
        free_space := free_space h - (length (pending f) + ?rem)\<rparr>"
    by (simp only: content space) simp
  show ?case
    using Cons.IH [OF rest f1 adv(2) room1 cap] by (simp only: step hh)
qed

lemma write_blocks_bound:
  "files h (file_path f) = Some old \<Longrightarrow> cur \<le> fs \<Longrightarrow>
   \<exists>new. files (snd (write_blocks sy cdc data fs bs cur f h)) (file_path f) = Some (old @ new)
     \<and> length new \<le> length (pending f) + (unat fs - unat cur)"
proof (induction bs arbitrary: cur f h old)
  case Nil
  obtain t where "files (snd (fclose f h)) (file_path f) = Some (old @ t)"
    and "length t \<le> length (pending f)"
    using fclose_any [OF Nil.prems(1)] by blast
  then show ?case by (intro exI [of _ t]) simp
next
  case (Cons b bs)
  show ?case
  proof (cases "ccos_get_block_data cdc b data")
    case None
    obtain t where "files (snd (fclose f h)) (file_path f) = Some (old @ t)"
      and "length t \<le> length (pending f)"
      using fclose_any [OF Cons.prems(1)] by blast
    then show ?thesis using None by (intro exI [of _ t]) simp
  next
    case (Some payload)
    let ?rem = "unat fs - unat cur"
    let ?w = "min ?rem (length payload)"
    have lw: "length (take ?w payload) = ?w" by simp
    have wr: "?w \<le> ?rem" by simp
    obtain n t u h1 where tu: "t @ u = pending f @ take ?w payload"
      and fw: "fwrite sy (take ?w payload) f h = (n, f\<lparr>pending := u\<rparr>, h1)"
      and fl1: "files h1 (file_path f) = Some (old @ t)"
      by (rule fwrite_any [OF Cons.prems(1)])
    let ?f1 = "f\<lparr>pending := u\<rparr>"
    have lens: "length t + length u = length (pending f) + ?w"
      using tu [THEN arg_cong, of length] by (simp only: length_append lw)
    have fl1': "files h1 (file_path ?f1) = Some (old @ t)" using fl1 by simp
    have "write_blocks sy cdc data fs (b # bs) cur f h =
        (case fwrite sy (take ?w payload) f h of
           (written, f1, h1) \<Rightarrow>
             if written < ?w then (RESULT_ERROR, snd (fclose f1 h1))
             else write_blocks sy cdc data fs bs (cur + of_nat ?w) f1 h1)"
      by (rule write_blocks_step [OF Some Cons.prems(2) refl])
    then have step: "write_blocks sy cdc data fs (b # bs) cur f h =
        (if n < ?w then (RESULT_ERROR, snd (fclose ?f1 h1))
         else write_blocks sy cdc data fs bs (cur + of_nat ?w) ?f1 h1)"
      by (simp only: fw prod.case)
    show ?thesis
    proof (cases "n < ?w")
      case True
      obtain t' where c: "files (snd (fclose ?f1 h1)) (file_path ?f1) = Some ((old @ t) @ t')"
        and l: "length t' \<le> length (pending ?f1)"
        using fclose_any [OF fl1'] by blast
      have "length (t @ t') \<le> length (pending f) + ?rem"
        using l lens wr by simp
      moreover have "files (snd (write_blocks sy cdc data fs (b # bs) cur f h)) (file_path f) = Some (old @ t @ t')"
        using True c by (simp only: step if_True) simp
      ultimately show ?thesis by blast
    next
      case False
      have adv: "unat (cur + of_nat ?w) = unat cur + ?w" "cur + of_nat ?w \<le> fs"
        using u32_advance [OF Cons.prems(2), of ?w] by simp_all
      obtain new where c: "files (snd (write_blocks sy cdc data fs bs (cur + of_nat ?w) ?f1 h1)) (file_path ?f1)
            = Some ((old @ t) @ new)"
        and l: "length new \<le> length (pending ?f1) + (unat fs - unat (cur + of_nat ?w))"
        using Cons.IH [OF fl1' adv(2)] by blast
      have "length new \<le> length u + (?rem - ?w)" using l adv(1) by simp
      then have "length (t @ new) \<le> length (pending f) + ?rem"
        using lens wr by simp
      moreover have "files (snd (write_blocks sy cdc data fs (b # bs) cur f h)) (file_path f) = Some (old @ t @ new)"
        using False c by (simp only: step if_False) simp
      ultimately show ?thesis by blast
    qed
  qed
qed

subsection \<open>The extracted file\<close>

text \<open>
  C1. When the name and the block chain of a file decode, every block of the chain
  resolves, the chain holds at least as many bytes as the logical size \<open>S\<close> of the
  file, and the host file can be opened and has room for \<open>S\<close> bytes, then
  \<open>dump_dir_tree_on_file\<close> returns \<open>RESULT_OK\<close> and the host file holds the
  first \<open>S\<close> bytes of the concatenated payloads, exactly \<open>S\<close> bytes, also when
  the last block used holds more than what was left to write. No other file changes.
\<close>

theorem extraction_writes_logical_size:
  assumes mem: "calloc_ok sy PATH_MAX"
    and nm: "ccos_short_string_to_string cdc (ccos_get_file_name cdc block data) = Some file_name"
    and path: "abspath = snprintf PATH_MAX (dirname @ ''/'' @ replace_char_in_place file_name CHR ''/'' CHR ''_'')"
    and chain: "ccos_get_file_blocks cdc block data = Some bs"
    and payloads: "\<forall>b \<in> set bs. ccos_get_block_data cdc b data \<noteq> None"
    and cap: "unat (ccos_get_file_size cdc block data) \<le> length (chain_data cdc data bs)"
    and opn: "fopen_wb_ok sy abspath"
    and room: "unat (ccos_get_file_size cdc block data) \<le> free_space h"
  shows "\<exists>h'. dump_dir_tree_on_file sy cdc block data dirname level a h = (RESULT_OK, a, h')
      \<and> files h' = (files h)(abspath \<mapsto>
            take (unat (ccos_get_file_size cdc block data)) (chain_data cdc data bs))
      \<and> length (take (unat (ccos_get_file_size cdc block data)) (chain_data cdc data bs))
          = unat (ccos_get_file_size cdc block data)"
proof -
  let ?S = "ccos_get_file_size cdc block data"
  let ?f = "\<lparr>file_path = abspath, pending = []\<rparr>"
  let ?h1 = "h\<lparr>files := (files h)(abspath \<mapsto> [])\<rparr>"
  have opened: "fopen_wb sy abspath h = Some (?f, ?h1)"
    using opn by (simp add: fopen_wb_def)
  have f1: "files ?h1 (file_path ?f) = Some []" by simp
  have room1: "length (pending ?f) + (unat ?S - unat (0 :: 32 word)) \<le> free_space ?h1" using room by simp
  have cap1: "unat ?S - unat (0 :: 32 word) \<le> length (chain_data cdc data bs)" using cap by simp
  have z: "(0 :: 32 word) \<le> ?S" by simp
  have "write_blocks sy cdc data ?S (bs @ []) 0 ?f ?h1 =
      (if \<forall>b \<in> set []. ccos_get_block_data cdc b data \<noteq> None then RESULT_OK else RESULT_ERROR,
       ?h1\<lparr>files := (files ?h1)(file_path ?f \<mapsto>
             [] @ pending ?f @ take (unat ?S - unat (0 :: 32 word)) (chain_data cdc data bs)),
           free_space := free_space ?h1 - (length (pending ?f) + (unat ?S - unat (0 :: 32 word)))\<rparr>)"
    by (rule write_blocks_past_size [OF payloads f1 z room1 cap1])
  then have run: "write_blocks sy cdc data ?S bs 0 ?f ?h1 =
      (RESULT_OK, h\<lparr>files := (files h)(abspath \<mapsto> take (unat ?S) (chain_data cdc data bs)),
                    free_space := free_space h - unat ?S\<rparr>)"
    by simp
  have res: "dump_dir_tree_on_file sy cdc block data dirname level a h =
      (RESULT_OK, a, h\<lparr>files := (files h)(abspath \<mapsto> take (unat ?S) (chain_data cdc data bs)),
                       free_space := free_space h - unat ?S\<rparr>)"
    using mem opened run unfolding path
    by (simp add: dump_dir_tree_on_file_def nm chain Let_def)
  show ?thesis using res cap by simp
qed

theorem extraction_writes_logical_size_witness:
  "\<exists>h'. dump_dir_tree_on_file demo_sys demo_codec 3 demo_image ''out'' 1 () demo_host = (RESULT_OK, (), h')
      \<and> files h' = (files demo_host)(''out/a~Text~'' \<mapsto> [1, 2, 3, 4, 5])"
proof -
  have mem: "calloc_ok demo_sys PATH_MAX" by (simp add: demo_sys_def)
  have nm: "ccos_short_string_to_string demo_codec (ccos_get_file_name demo_codec 3 demo_image) = Some ''a~Text~''"
    by (simp add: demo_codec_def)
  have path: "''out/a~Text~'' = snprintf PATH_MAX (''out'' @ ''/'' @ replace_char_in_place ''a~Text~'' CHR ''/'' CHR ''_'')"
    by (simp add: snprintf_def PATH_MAX_def replace_char_in_place_def)
  have chain: "ccos_get_file_blocks demo_codec 3 demo_image = Some [10, 11]"
    by (simp add: demo_codec_def)
  have payloads: "\<forall>b \<in> set [10, 11]. ccos_get_block_data demo_codec b demo_image \<noteq> None"
    by (simp add: demo_codec_def)
  have cd: "chain_data demo_codec demo_image [10, 11] = [1, 2, 3, 4, 5, 6, 7, 8]"
    by (simp add: chain_data_def demo_codec_def)
  have sz: "ccos_get_file_size demo_codec 3 demo_image = 5"
    by (simp add: demo_codec_def)
  have cap: "unat (ccos_get_file_size demo_codec 3 demo_image) \<le> length (chain_data demo_codec demo_image [10, 11])"
    by (simp add: cd sz)
  have opn: "fopen_wb_ok demo_sys ''out/a~Text~''" by (simp add: demo_sys_def)
  have room: "unat (ccos_get_file_size demo_codec 3 demo_image) \<le> free_space demo_host"
    by (simp add: sz demo_host_def)
  show ?thesis
    using extraction_writes_logical_size [OF mem nm path chain payloads cap opn room, of 1 "()"]
    by (simp add: cd sz)
qed

subsection \<open>Blocks after the logical size\<close>

text \<open>
  C8, as the code has it. Let the chain of a file be the blocks \<open>pre\<close> followed by
  the blocks \<open>post\<close>, where the blocks of \<open>pre\<close> resolve and hold at least the
  logical size \<open>S\<close>. Extraction writes the first \<open>S\<close> bytes of the payload of
  \<open>pre\<close> to the host file and nothing of \<open>post\<close>, so no slack is written. The
  loop still resolves each block of \<open>post\<close>: the visitor returns \<open>RESULT_OK\<close>
  when all of them resolve and \<open>RESULT_ERROR\<close> when one does not. From any point
  of the loop on, whatever the chain, the bytes added to the host file are at most
  what the stream holds from the iterations before and what is left of the logical
  size.
\<close>

theorem extraction_resolves_every_block_writes_no_slack:
  assumes mem: "calloc_ok sy PATH_MAX"
    and nm: "ccos_short_string_to_string cdc (ccos_get_file_name cdc block data) = Some file_name"
    and path: "abspath = snprintf PATH_MAX (dirname @ ''/'' @ replace_char_in_place file_name CHR ''/'' CHR ''_'')"
    and chain: "ccos_get_file_blocks cdc block data = Some (pre @ post)"
    and payloads: "\<forall>b \<in> set pre. ccos_get_block_data cdc b data \<noteq> None"
    and cap: "unat (ccos_get_file_size cdc block data) \<le> length (chain_data cdc data pre)"
    and opn: "fopen_wb_ok sy abspath"
    and room: "unat (ccos_get_file_size cdc block data) \<le> free_space h"
  shows "dump_dir_tree_on_file sy cdc block data dirname level a h =
      (if \<forall>b \<in> set post. ccos_get_block_data cdc b data \<noteq> None then RESULT_OK else RESULT_ERROR, a,
       h\<lparr>files := (files h)(abspath \<mapsto>
             take (unat (ccos_get_file_size cdc block data)) (chain_data cdc data pre)),
         free_space := free_space h - unat (ccos_get_file_size cdc block data)\<rparr>)
    \<and> (\<forall>h0 f old bs current_size.
          files h0 abspath = Some old \<and> file_path f = abspath
            \<and> current_size \<le> ccos_get_file_size cdc block data \<longrightarrow>
          (\<exists>new. files (snd (write_blocks sy cdc data (ccos_get_file_size cdc block data)
                                bs current_size f h0)) abspath = Some (old @ new)
             \<and> length new \<le> length (pending f)
                 + (unat (ccos_get_file_size cdc block data) - unat current_size)))"
proof -
  let ?S = "ccos_get_file_size cdc block data"
  let ?f = "\<lparr>file_path = abspath, pending = []\<rparr>"
  let ?h1 = "h\<lparr>files := (files h)(abspath \<mapsto> [])\<rparr>"
  let ?h' = "h\<lparr>files := (files h)(abspath \<mapsto> take (unat ?S) (chain_data cdc data pre)),
               free_space := free_space h - unat ?S\<rparr>"
  let ?verdict = "if \<forall>b \<in> set post. ccos_get_block_data cdc b data \<noteq> None then RESULT_OK else RESULT_ERROR"
  have opened: "fopen_wb sy abspath h = Some (?f, ?h1)"
    using opn by (simp add: fopen_wb_def)
  have f1: "files ?h1 (file_path ?f) = Some []" by simp
  have z: "(0 :: 32 word) \<le> ?S" by simp
  have room1: "length (pending ?f) + (unat ?S - unat (0 :: 32 word)) \<le> free_space ?h1" using room by simp
  have cap1: "unat ?S - unat (0 :: 32 word) \<le> length (chain_data cdc data pre)" using cap by simp
  have "write_blocks sy cdc data ?S (pre @ post) 0 ?f ?h1 =
      (?verdict,
       ?h1\<lparr>files := (files ?h1)(file_path ?f \<mapsto>
             [] @ pending ?f @ take (unat ?S - unat (0 :: 32 word)) (chain_data cdc data pre)),
           free_space := free_space ?h1 - (length (pending ?f) + (unat ?S - unat (0 :: 32 word)))\<rparr>)"
    by (rule write_blocks_past_size [OF payloads f1 z room1 cap1])
  also have "\<dots> = (?verdict, ?h')" by simp
  finally have run: "write_blocks sy cdc data ?S (pre @ post) 0 ?f ?h1 = (?verdict, ?h')" .
  have res: "dump_dir_tree_on_file sy cdc block data dirname level a h = (?verdict, a, ?h')"
    using mem opened run unfolding path
    by (simp add: dump_dir_tree_on_file_def nm chain Let_def del: write_blocks.simps)
  have bound: "\<exists>new. files (snd (write_blocks sy cdc data ?S bs current_size f h0)) abspath = Some (old @ new)
             \<and> length new \<le> length (pending f) + (unat ?S - unat current_size)"
    if "files h0 abspath = Some old" and "file_path f = abspath" and "current_size \<le> ?S"
    for h0 f old bs current_size
    using write_blocks_bound [of h0 f old current_size ?S sy cdc data bs] that by simp
  show ?thesis
    using res bound by blast
qed

theorem extraction_resolves_every_block_writes_no_slack_witness:
  "dump_dir_tree_on_file demo_sys demo_codec 5 demo_image ''out'' 0 () demo_host =
     (RESULT_OK, (),
      demo_host\<lparr>files := (files demo_host)(''out/a~Text~'' \<mapsto> [4]), free_space := free_space demo_host - 1\<rparr>)"
proof -
  have mem: "calloc_ok demo_sys PATH_MAX" by (simp add: demo_sys_def)
  have nm: "ccos_short_string_to_string demo_codec (ccos_get_file_name demo_codec 5 demo_image) = Some ''a~Text~''"
    by (simp add: demo_codec_def)
  have path: "''out/a~Text~'' = snprintf PATH_MAX (''out'' @ ''/'' @ replace_char_in_place ''a~Text~'' CHR ''/'' CHR ''_'')"
    by (simp add: snprintf_def PATH_MAX_def replace_char_in_place_def)
  have chain: "ccos_get_file_blocks demo_codec 5 demo_image = Some ([14] @ [15])"
    by (simp add: demo_codec_def)
  have payloads: "\<forall>b \<in> set [14]. ccos_get_block_data demo_codec b demo_image \<noteq> None"
    by (simp add: demo_codec_def)
  have cd: "chain_data demo_codec demo_image [14] = [4, 4]"
    by (simp add: chain_data_def demo_codec_def)
  have sz: "ccos_get_file_size demo_codec 5 demo_image = 1"
    by (simp add: demo_codec_def)
  have cap: "unat (ccos_get_file_size demo_codec 5 demo_image) \<le> length (chain_data demo_codec demo_image [14])"
    by (simp add: cd sz)
  have opn: "fopen_wb_ok demo_sys ''out/a~Text~''" by (simp add: demo_sys_def)
  have room: "unat (ccos_get_file_size demo_codec 5 demo_image) \<le> free_space demo_host"
    by (simp add: sz demo_host_def)
  have post: "\<forall>b \<in> set [15]. ccos_get_block_data demo_codec b demo_image \<noteq> None"
    by (simp add: demo_codec_def)
  note th = extraction_resolves_every_block_writes_no_slack
    [OF mem nm path chain payloads cap opn room, of 0 "()", THEN conjunct1]
  show ?thesis
    using th post by (simp only: if_True cd sz) simp
qed

text \<open>
  The claim as stated fails on file 4 of the small image: its logical size is 2, the
  first block of its chain holds 3 bytes, and after the 2 bytes are written the loop
  still resolves block 13, which does not decode, so the visitor fails.
\<close>

theorem extraction_stops_reading_at_logical_size_counterexample:
  "ccos_get_file_size demo_codec 4 demo_image = 2
   \<and> ccos_get_file_blocks demo_codec 4 demo_image = Some [12, 13]
   \<and> ccos_get_block_data demo_codec 12 demo_image = Some [7, 7, 7]
   \<and> ccos_get_block_data demo_codec 13 demo_image = None
   \<and> dump_dir_tree_on_file demo_sys demo_codec 4 demo_image ''out'' 1 () demo_host =
       (RESULT_ERROR, (),
        demo_host\<lparr>files := (files demo_host)(''out/b_c~Text~'' \<mapsto> [7, 7]), free_space := 998\<rparr>)"
  by (simp add: demo_codec_def demo_sys_def demo_host_def dump_dir_tree_on_file_def fopen_wb_def
      fwrite_def fclose_def transmit_def snprintf_def PATH_MAX_def replace_char_in_place_def Let_def)

section \<open>Properties of the lister\<close>

lemma formatted_name_indent:
  "formatted_name basename level = replicate (2 * level) CHR '' '' @ basename"
  by (simp add: formatted_name_def Let_def snprintf_def pad_left_def)

lemma listed_row_shape:
  assumes "ccos_parse_file_name cdc (ccos_get_file_name cdc b data) = Some (basename, ty)"
    and "\<forall>n. calloc_ok sy n"
  shows "\<exists>rest. listed_row sy cdc data b level =
     pad_right 32 (replicate (2 * level) CHR '' '' @ basename) @ rest @ [CHR 0x0A]"
  using assms
  by (simp add: listed_row_def format_version_def info_row_def formatted_name_indent)

lemma walk_order_levels:
  "map (\<lambda>ev. (ev_block ev, ev_level ev)) (walk_order cdc data dirname level ts) = forest_levels level ts"
  by (induction ts arbitrary: dirname level rule: forest_blocks.induct) simp_all

lemma forest_levels_blocks: "map fst (forest_levels level ts) = forest_blocks ts"
  by (induction ts arbitrary: level rule: forest_blocks.induct) simp_all

lemma list_all2_map_right:
  "(\<And>x. x \<in> set xs \<Longrightarrow> P x (f x)) \<Longrightarrow> list_all2 P xs (map f xs)"
  by (simp add: list_all2_map2 list_all2_same)

lemma listing_events:
  assumes mem: "\<forall>n. calloc_ok sy n"
  shows "(\<forall>ev \<in> set evs. ccos_parse_file_name cdc (ccos_get_file_name cdc (ev_block ev) data) \<noteq> None) \<Longrightarrow>
     env (run_events (Some (print_file_info sy cdc)) (Some (print_file_info sy cdc)) data evs s) =
     (env s)\<lparr>stdout := stdout (env s)
        @ concat (map (\<lambda>ev. listed_row sy cdc data (ev_block ev) (ev_level ev)) evs)\<rparr>"
proof (induction evs arbitrary: s)
  case Nil
  show ?case by (simp add: run_events_Nil)
next
  case (Cons ev evs)
  have p: "ccos_parse_file_name cdc (ccos_get_file_name cdc (ev_block ev) data) \<noteq> None"
    using Cons.prems by simp
  have v: "visitor_for (Some (print_file_info sy cdc)) (Some (print_file_info sy cdc)) ev
      = Some (print_file_info sy cdc)"
    by (cases ev) simp_all
  have one: "env (snd (invoke (Some (print_file_info sy cdc)) data ev s)) =
      (env s)\<lparr>stdout := stdout (env s) @ listed_row sy cdc data (ev_block ev) (ev_level ev)\<rparr>"
    by (simp add: invoke_def print_file_info_row [OF p mem])
  show ?case
    using Cons.prems by (simp add: run_events_Cons v Cons.IH one)
qed

lemma listing_all_ok:
  assumes mem: "\<forall>n. calloc_ok sy n"
    and names: "\<forall>ev \<in> set evs. ccos_parse_file_name cdc (ccos_get_file_name cdc (ev_block ev) data) \<noteq> None"
  shows "all_ok (Some (print_file_info sy cdc)) (Some (print_file_info sy cdc)) data evs"
  unfolding all_ok_def
proof (intro ballI allI)
  fix ev s
  assume "ev \<in> set evs"
  then have p: "ccos_parse_file_name cdc (ccos_get_file_name cdc (ev_block ev) data) \<noteq> None"
    using names by simp
  have v: "visitor_for (Some (print_file_info sy cdc)) (Some (print_file_info sy cdc)) ev
      = Some (print_file_info sy cdc)"
    by (cases ev) simp_all
  show "fst (invoke (visitor_for (Some (print_file_info sy cdc)) (Some (print_file_info sy cdc)) ev) data ev s)
      = RESULT_OK"
    by (simp add: v invoke_Some_fst print_file_info_row [OF p mem])
qed

text \<open>
  C9. On a well-formed image whose entries all have names that parse, with every
  allocation succeeding, \<open>print_image_info\<close> returns 0 and prints, after its heading,
  one row for each entry below the superblock, in the order of the walk. The row of an
  entry at nesting depth \<open>l\<close> starts with the name column: \<open>2 * l\<close> spaces, then the
  base name, padded on the right to 32 characters; it ends with a newline.
\<close>

theorem listing_prints_one_indented_row_per_entry:
  assumes dec: "decodes_to cdc data superblock ts"
    and fuel: "forest_depth ts < fuel"
    and mem: "\<forall>n. calloc_ok sy n"
    and names: "\<forall>b \<in> set (forest_blocks ts). ccos_parse_file_name cdc (ccos_get_file_name cdc b data) \<noteq> None"
    and floppy: "ccos_short_string_to_string cdc (ccos_get_file_name cdc superblock data) = Some floppy_name"
  shows "\<exists>h' rows. print_image_info fuel su sy cdc path superblock data h = Some (0, h')
      \<and> stdout h' = stdout h @ listing_heading su path floppy_name @ concat rows
      \<and> rows = map (\<lambda>(b, l). listed_row sy cdc data b l) (forest_levels 0 ts)
      \<and> length rows = length (forest_blocks ts)
      \<and> list_all2 (\<lambda>(b, l) row. \<exists>basename ty rest.
            ccos_parse_file_name cdc (ccos_get_file_name cdc b data) = Some (basename, ty)
            \<and> row = pad_right 32 (replicate (2 * l) CHR '' '' @ basename) @ rest @ [CHR 0x0A])
          (forest_levels 0 ts) rows"
proof -
  let ?pfi = "Some (print_file_info sy cdc)"
  let ?evs = "walk_order cdc data [] 0 ts"
  let ?s0 = "\<lparr>arg = (), env = h\<lparr>stdout := stdout h @ listing_heading su path floppy_name\<rparr>, calls = []\<rparr>"
  let ?rows = "map (\<lambda>(b, l). listed_row sy cdc data b l) (forest_levels 0 ts)"
  have evnames: "\<forall>ev \<in> set ?evs. ccos_parse_file_name cdc (ccos_get_file_name cdc (ev_block ev) data) \<noteq> None"
  proof
    fix ev assume "ev \<in> set ?evs"
    then have "ev_block ev \<in> set (map ev_block ?evs)" by simp
    then have "ev_block ev \<in> set (forest_blocks ts)" by (simp only: walk_order_blocks)
    then show "ccos_parse_file_name cdc (ccos_get_file_name cdc (ev_block ev) data) \<noteq> None"
      using names by blast
  qed
  have mem1: "calloc_ok sy PATH_MAX" using mem by simp
  have run: "traverse_ccos_image fuel sy cdc superblock data [] 0 ?pfi ?pfi ?s0 =
      Some (0, run_events ?pfi ?pfi data ?evs ?s0)"
    by (rule walk_from_start [OF dec fuel mem1 listing_all_ok [OF mem evnames]])
  have rows_ev: "map (\<lambda>ev. listed_row sy cdc data (ev_block ev) (ev_level ev)) ?evs = ?rows"
  proof -
    have "map (\<lambda>ev. listed_row sy cdc data (ev_block ev) (ev_level ev)) ?evs =
          map (\<lambda>(b, l). listed_row sy cdc data b l) (map (\<lambda>ev. (ev_block ev, ev_level ev)) ?evs)"
      by (simp add: comp_def)
    then show ?thesis by (simp only: walk_order_levels)
  qed
  have out: "env (run_events ?pfi ?pfi data ?evs ?s0) =
      (env ?s0)\<lparr>stdout := stdout (env ?s0) @ concat ?rows\<rparr>"
    using listing_events [OF mem evnames, of ?s0] by (simp only: rows_ev)
  let ?h' = "env (run_events ?pfi ?pfi data ?evs ?s0)"
  have res: "print_image_info fuel su sy cdc path superblock data h = Some (0, ?h')"
    by (simp add: print_image_info_def floppy run)
  have so: "stdout ?h' = stdout h @ listing_heading su path floppy_name @ concat ?rows"
    by (simp add: out)
  have len: "length ?rows = length (forest_blocks ts)"
    using forest_levels_blocks [of 0 ts, THEN arg_cong, of length] by simp
  have shape: "list_all2 (\<lambda>(b, l) row. \<exists>basename ty rest.
            ccos_parse_file_name cdc (ccos_get_file_name cdc b data) = Some (basename, ty)
            \<and> row = pad_right 32 (replicate (2 * l) CHR '' '' @ basename) @ rest @ [CHR 0x0A])
          (forest_levels 0 ts) ?rows"
  proof (rule list_all2_map_right)
    fix x assume x: "x \<in> set (forest_levels 0 ts)"
    obtain b l where bl: "x = (b, l)" by (cases x)
    have "b \<in> set (map fst (forest_levels 0 ts))" using x bl by force
    then have "b \<in> set (forest_blocks ts)" by (simp only: forest_levels_blocks)
    then obtain basename ty where p: "ccos_parse_file_name cdc (ccos_get_file_name cdc b data) = Some (basename, ty)"
      using names by fastforce
    obtain rest where "listed_row sy cdc data b l =
        pad_right 32 (replicate (2 * l) CHR '' '' @ basename) @ rest @ [CHR 0x0A]"
      using listed_row_shape [OF p mem] by blast
    then show "(\<lambda>(b, l) row. \<exists>basename ty rest.
            ccos_parse_file_name cdc (ccos_get_file_name cdc b data) = Some (basename, ty)
            \<and> row = pad_right 32 (replicate (2 * l) CHR '' '' @ basename) @ rest @ [CHR 0x0A])
          x ((\<lambda>(b, l). listed_row sy cdc data b l) x)"
      using p bl by simp
  qed
  show ?thesis
    using res so len shape by blast
qed

theorem listing_prints_one_indented_row_per_entry_witness:
  "\<exists>h' rows. print_image_info 2 demo_utils demo_sys demo_codec ''disk.img'' 1 demo_image demo_host = Some (0, h')
      \<and> stdout h' = stdout demo_host @ listing_heading demo_utils ''disk.img'' ''disk'' @ concat rows
      \<and> rows = map (\<lambda>(b, l). listed_row demo_sys demo_codec demo_image b l) [(2, 0), (3, 1), (4, 1), (5, 0)]
      \<and> length rows = 4"
proof -
  have dec: "decodes_to demo_codec demo_image 1 demo_forest"
    by (simp add: decodes_to_def demo_codec_def demo_forest_def)
  have fuel: "forest_depth demo_forest < 2"
    by (simp add: demo_forest_def)
  have mem: "\<forall>n. calloc_ok demo_sys n"
    by (simp add: demo_sys_def)
  have names: "\<forall>b \<in> set (forest_blocks demo_forest).
      ccos_parse_file_name demo_codec (ccos_get_file_name demo_codec b demo_image) \<noteq> None"
    by (simp add: demo_forest_def demo_codec_def)
  have floppy: "ccos_short_string_to_string demo_codec (ccos_get_file_name demo_codec 1 demo_image) = Some ''disk''"
    by (simp add: demo_codec_def)
  have lv: "forest_levels 0 demo_forest = [(2, 0), (3, 1), (4, 1), (5, 0)]"
    by (simp add: demo_forest_def)
  have bl: "length (forest_blocks demo_forest) = 4"
    by (simp add: demo_forest_def)
  show ?thesis
    using listing_prints_one_indented_row_per_entry [OF dec fuel mem names floppy,
      of demo_utils "''disk.img''" demo_host]
    unfolding lv bl by blast
qed

section \<open>Properties of the patcher\<close>

subsection \<open>The name searched for\<close>

lemma strrchr_None: "strrchr str c = None \<longleftrightarrow> c \<notin> set str"
  by (induction str) (auto split: option.splits)

lemma strrchr_Some:
  "c \<in> set str \<Longrightarrow> strrchr str c = Some (c # rev (takeWhile (\<lambda>x. x \<noteq> c) (rev str)))"
proof (induction str)
  case Nil
  then show ?case by simp
next
  case (Cons x xs)
  show ?case
  proof (cases "c \<in> set xs")
    case True
    then have "takeWhile (\<lambda>x. x \<noteq> c) (rev xs @ [x]) = takeWhile (\<lambda>x. x \<noteq> c) (rev xs)"
      by (intro takeWhile_append1 [of c]) simp_all
    then show ?thesis using Cons.IH [OF True] by simp
  next
    case False
    then have xc: "x = c" using Cons.prems by simp
    have "takeWhile (\<lambda>x. x \<noteq> c) (rev xs @ [c]) = rev xs @ takeWhile (\<lambda>x. x \<noteq> c) [c]"
      using False by (intro takeWhile_append2) auto
    then show ?thesis using False xc by (simp add: strrchr_None [THEN iffD2])
  qed
qed

lemma path_basename_spec: "path_basename path = spec_basename path"
proof (cases "CHR ''/'' \<in> set path")
  case True
  then show ?thesis by (simp add: path_basename_def spec_basename_def strrchr_Some)
next
  case False
  then show ?thesis by (simp add: path_basename_def spec_basename_def strrchr_None [THEN iffD2])
qed

lemma searched_name_spec: "searched_name filename target = spec_searched_name filename target"
  by (simp add: searched_name_def spec_searched_name_def path_basename_spec split: option.splits)

text \<open>
  C10. \<open>replace_file\<close> looks in the image for the explicit target name when one is
  given, and otherwise for the part of the host file's path after its last
  \<^verbatim>\<open>'/'\<close>, the whole path when it has none: the call is the search for that name,
  followed, when a block is found, by the replacement in that block.
\<close>

theorem replace_file_searches_target_or_basename:
  "replace_file fuel sy cdc path filename target superblock data data_size in_place h =
     (case find_filename fuel sy cdc superblock data (spec_searched_name filename target) h of
        None \<Rightarrow> None
      | Some (Inl e) \<Rightarrow> Some (Inl (NotInImage (spec_searched_name filename target)), data, h)
      | Some (Inr inode) \<Rightarrow>
          Some (overwrite_and_save sy cdc path filename inode data data_size in_place h))"
  unfolding replace_file_def searched_name_spec by (rule refl)

lemma spec_basename_examples:
  "spec_basename ''dir/sub/report~Text~'' = ''report~Text~''"
  "spec_basename ''report~Text~'' = ''report~Text~''"
  "spec_basename ''dir/'' = ''''"
  by (simp_all add: spec_basename_def)

subsection \<open>A replacement that the codec refuses\<close>

text \<open>
  C5. The codec compares the new content with the capacity of the block chain inside
  \<open>ccos_replace_file\<close> and reports content that does not fit by returning \<open>-1\<close>.
  When it does, \<open>replace_file\<close> fails with the message that the file could not be
  overwritten, and the host is as it was before the call: no output file has been
  opened or written.
\<close>

theorem replace_file_refused_writes_no_output:
  assumes found: "find_filename fuel sy cdc superblock data (searched_name filename target) h = Some (Inr inode)"
    and input: "files h filename = Some file_contents"
    and mem: "calloc_ok sy (length file_contents)"
    and rd: "fread_count sy filename (length file_contents) = length file_contents"
    and refused: "fst (ccos_replace_file cdc inode file_contents data) = - 1"
  shows "replace_file fuel sy cdc path filename target superblock data data_size in_place h =
     Some (Inl OverwriteFailed, snd (ccos_replace_file cdc inode file_contents data), h)"
proof -
  obtain data1 where r: "ccos_replace_file cdc inode file_contents data = (- 1, data1)"
    using refused by (cases "ccos_replace_file cdc inode file_contents data") auto
  show ?thesis
    using mem rd by (simp add: replace_file_def found overwrite_and_save_def input Let_def r)
qed

lemma demo_find_b_c:
  "find_filename 2 demo_sys demo_codec 1 demo_image ''b_c~Text~'' h = Some (Inr 4)"
  by (simp add: find_filename_def traverse_ccos_image_numeral demo_codec_def demo_sys_def invoke_def
      find_file_on_file_def replace_char_in_place_def snprintf_def PATH_MAX_def
      RESULT_OK_def RESULT_ERROR_def RESULT_BREAK_def)

theorem replace_file_refused_writes_no_output_witness:
  "replace_file 2 demo_sys demo_codec ''disk.img'' ''big.bin'' (Some ''b_c~Text~'') 1 demo_image 10 False demo_host =
     Some (Inl OverwriteFailed, demo_image, demo_host)"
proof -
  have found: "find_filename 2 demo_sys demo_codec 1 demo_image (searched_name ''big.bin'' (Some ''b_c~Text~'')) demo_host
      = Some (Inr 4)"
    using demo_find_b_c by (simp add: searched_name_def)
  have input: "files demo_host ''big.bin'' = Some [1, 2, 3, 4, 5, 6, 7, 8, 9]"
    by (simp add: demo_host_def)
  have mem: "calloc_ok demo_sys (length [1, 2, 3, 4, 5, 6, 7, 8, 9 :: byte])"
    by (simp add: demo_sys_def)
  have rd: "fread_count demo_sys ''big.bin'' (length [1, 2, 3, 4, 5, 6, 7, 8, 9 :: byte])
      = length [1, 2, 3, 4, 5, 6, 7, 8, 9 :: byte]"
    by (simp add: demo_sys_def)
  have refused: "fst (ccos_replace_file demo_codec 4 [1, 2, 3, 4, 5, 6, 7, 8, 9] demo_image) = - 1"
    by (simp add: demo_codec_def)
  have unchanged: "snd (ccos_replace_file demo_codec 4 [1, 2, 3, 4, 5, 6, 7, 8, 9] demo_image) = demo_image"
    by (simp add: demo_codec_def)
  show ?thesis
    using replace_file_refused_writes_no_output [OF found input mem rd refused, of "''disk.img''" 10 False]
    by (simp only: unchanged)
qed

subsection \<open>Writing the image out\<close>

text \<open>
  When the host has room for \<open>data_size\<close> bytes and the buffer holds as many,
  \<open>replace_file\<close> leaves them in the file at the path it opened: the original path
  with the in-place flag, and otherwise what \<^verbatim>\<open>snprintf\<close> keeps of the path
  followed by \<^verbatim>\<open>.new\<close>.
\<close>

lemma overwrite_and_save_output:
  assumes input: "files h filename = Some file_contents"
    and mem: "calloc_ok sy (length file_contents)"
    and rd: "fread_count sy filename (length file_contents) = length file_contents"
    and replaced: "ccos_replace_file cdc inode file_contents data = (rc, data1)"
    and accepted: "rc \<noteq> - 1"
    and out: "output_path = (if in_place then path else take (PATH_MAX - 1) (path @ ''.new''))"
    and opn: "fopen_wb_ok sy output_path"
    and size: "data_size \<le> length data1"
    and room: "data_size \<le> free_space h"
  shows "overwrite_and_save sy cdc path filename inode data data_size in_place h =
     (Inr (), data1,
      h\<lparr>files := (files h)(output_path \<mapsto> take data_size data1), free_space := free_space h - data_size\<rparr>)"
proof -
  let ?f = "\<lparr>file_path = output_path, pending = []\<rparr>"
  let ?h1 = "h\<lparr>files := (files h)(output_path \<mapsto> [])\<rparr>"
  let ?bytes = "take data_size data1"
  have p: "(if in_place then path else snprintf PATH_MAX (path @ ''.new'')) = output_path"
    by (simp add: out snprintf_def)
  have opened: "fopen_wb sy output_path h = Some (?f, ?h1)"
    using opn by (simp add: fopen_wb_def)
  have len: "length ?bytes = data_size" using size by simp
  have f1: "files ?h1 (file_path ?f) = Some []" by simp
  have room1: "length (pending ?f) + length ?bytes \<le> free_space ?h1"
    using room by (simp only: len) simp
  obtain t u where tu: "t @ u = pending ?f @ ?bytes"
    and fw: "fwrite sy ?bytes ?f ?h1 =
        (length ?bytes, ?f\<lparr>pending := u\<rparr>,
         ?h1\<lparr>files := (files ?h1)(file_path ?f \<mapsto> [] @ t), free_space := free_space ?h1 - length t\<rparr>)"
    by (rule fwrite_room [OF f1 room1])
  let ?f2 = "?f\<lparr>pending := u\<rparr>"
  let ?h2 = "?h1\<lparr>files := (files ?h1)(file_path ?f \<mapsto> [] @ t), free_space := free_space ?h1 - length t\<rparr>"
  have tu': "t @ u = ?bytes" using tu by simp
  have lens: "length t + length u = data_size"
    using tu' [THEN arg_cong, of length] by (simp only: length_append len)
  have f2: "files ?h2 (file_path ?f2) = Some t" by simp
  have room2: "length (pending ?f2) \<le> free_space ?h2"
    using room lens by simp
  have "fclose ?f2 ?h2 =
      (0, ?h2\<lparr>files := (files ?h2)(file_path ?f2 \<mapsto> t @ pending ?f2),
               free_space := free_space ?h2 - length (pending ?f2)\<rparr>)"
    by (rule fclose_room [OF f2 room2])
  also have "?h2\<lparr>files := (files ?h2)(file_path ?f2 \<mapsto> t @ pending ?f2),
               free_space := free_space ?h2 - length (pending ?f2)\<rparr> =
      h\<lparr>files := (files h)(output_path \<mapsto> ?bytes), free_space := free_space h - data_size\<rparr>"
    using lens by (simp add: tu' [symmetric])
  finally have fc: "fclose ?f2 ?h2 =
      (0, h\<lparr>files := (files h)(output_path \<mapsto> ?bytes), free_space := free_space h - data_size\<rparr>)" .
  have "overwrite_and_save sy cdc path filename inode data data_size in_place h =
      (case fwrite sy ?bytes ?f ?h1 of
         (res, output1, h2) \<Rightarrow>
           (case fclose output1 h2 of
              (closed, h3) \<Rightarrow> if res \<noteq> data_size then (Inl ShortWrite, data1, h3) else (Inr (), data1, h3)))"
    using mem rd accepted
    by (simp add: overwrite_and_save_def input Let_def replaced p opened del: fun_upd_apply)
  then show ?thesis by (simp only: fw prod.case fc len) simp
qed

lemma long_path_length: "length long_path = 4095"
  by (simp add: long_path_def length_concat sum_list_replicate)

lemma long_path_cut: "take (PATH_MAX - 1) (long_path @ ''.new'') = long_path"
  by (simp add: PATH_MAX_def long_path_length)

lemma long_path_other:
  "long_path @ ''.new'' \<noteq> long_path"
  "long_path @ ''.new'' \<noteq> ''new.txt''"
  "long_path @ ''.new'' \<noteq> ''big.bin''"
proof -
  show "long_path @ ''.new'' \<noteq> long_path" by simp
  have len: "length (long_path @ ''.new'') = 4099" by (simp add: long_path_length)
  show "long_path @ ''.new'' \<noteq> ''new.txt''"
  proof
    assume "long_path @ ''.new'' = ''new.txt''"
    then have "length (long_path @ ''.new'') = length ''new.txt''" by (rule arg_cong)
    then show False by (simp only: len) simp
  qed
  show "long_path @ ''.new'' \<noteq> ''big.bin''"
  proof
    assume "long_path @ ''.new'' = ''big.bin''"
    then have "length (long_path @ ''.new'') = length ''big.bin''" by (rule arg_cong)
    then show False by (simp only: len) simp
  qed
qed

text \<open>
  C6. Two calls on the small image, both without the in-place flag and both with a
  replacement that the codec accepts, in which \<open>replace_file\<close> returns success and
  the changed image is not in the file with the suffix.

  In the first the path of the image has \<open>PATH_MAX - 1\<close> characters. The buffer
  that \<^verbatim>\<open>snprintf\<close> fills (line 461) has room for no character of the suffix, so
  the path opened is the original path: the changed image is written there, and no
  file with the suffixed name exists afterwards.

  In the second the host has no room left. The stream takes the 10 bytes of the image
  into its buffer, so \<^verbatim>\<open>fwrite\<close> returns 10; \<^verbatim>\<open>fclose\<close> cannot store
  them, and its result is dropped (line 473). The count compared at line 475 is the
  one of \<^verbatim>\<open>fwrite\<close>: the call returns success, and the file with the suffix is
  empty.
\<close>

theorem replace_file_cut_suffix_and_unreported_short_write:
  "length long_path = PATH_MAX - 1
   \<and> replace_file 2 demo_sys demo_codec long_path ''new.txt'' (Some ''b_c~Text~'') 1 demo_image 10 False
         demo_host =
       Some (Inr (), [9, 9, 9, 0, 0, 0, 0, 0, 0, 0],
             demo_host\<lparr>files := (files demo_host)(long_path \<mapsto> [9, 9, 9, 0, 0, 0, 0, 0, 0, 0]),
                        free_space := free_space demo_host - 10\<rparr>)
   \<and> files (demo_host\<lparr>files := (files demo_host)(long_path \<mapsto> [9, 9, 9, 0, 0, 0, 0, 0, 0, 0]),
                        free_space := free_space demo_host - 10\<rparr>) (long_path @ ''.new'')
       = None
   \<and> fwrite demo_sys [9, 9, 9, 0, 0, 0, 0, 0, 0, 0] \<lparr>file_path = ''disk.img.new'', pending = []\<rparr>
         (demo_host\<lparr>files := (files demo_host)(''disk.img.new'' \<mapsto> []), free_space := 0\<rparr>) =
       (10, \<lparr>file_path = ''disk.img.new'', pending = [9, 9, 9, 0, 0, 0, 0, 0, 0, 0]\<rparr>,
        demo_host\<lparr>files := (files demo_host)(''disk.img.new'' \<mapsto> []), free_space := 0\<rparr>)
   \<and> fclose \<lparr>file_path = ''disk.img.new'', pending = [9, 9, 9, 0, 0, 0, 0, 0, 0, 0]\<rparr>
         (demo_host\<lparr>files := (files demo_host)(''disk.img.new'' \<mapsto> []), free_space := 0\<rparr>) =
       (EOF, demo_host\<lparr>files := (files demo_host)(''disk.img.new'' \<mapsto> []), free_space := 0\<rparr>)
   \<and> replace_file 2 demo_sys demo_codec ''disk.img'' ''new.txt'' (Some ''b_c~Text~'') 1 demo_image 10 False
         (demo_host\<lparr>free_space := 0\<rparr>) =
       Some (Inr (), [9, 9, 9, 0, 0, 0, 0, 0, 0, 0],
             demo_host\<lparr>files := (files demo_host)(''disk.img.new'' \<mapsto> []), free_space := 0\<rparr>)"
proof -
  have input: "files demo_host ''new.txt'' = Some [9, 9, 9]"
    by (simp add: demo_host_def)
  have mem: "calloc_ok demo_sys (length [9, 9, 9 :: byte])"
    by (simp add: demo_sys_def)
  have rd: "fread_count demo_sys ''new.txt'' (length [9, 9, 9 :: byte]) = length [9, 9, 9 :: byte]"
    by (simp add: demo_sys_def)
  have replaced: "ccos_replace_file demo_codec 4 [9, 9, 9] demo_image = (0, [9, 9, 9, 0, 0, 0, 0, 0, 0, 0])"
    by (simp add: demo_codec_def demo_image_def)
  have accepted: "(0 :: int) \<noteq> - 1" by simp
  have out: "long_path = (if False then long_path else take (PATH_MAX - 1) (long_path @ ''.new''))"
    by (simp only: long_path_cut if_False)
  have opn: "fopen_wb_ok demo_sys long_path" by (simp add: demo_sys_def)
  have size: "10 \<le> length [9, 9, 9, 0, 0, 0, 0, 0, 0, 0 :: byte]" by simp
  have room: "10 \<le> free_space demo_host" by (simp add: demo_host_def)
  let ?h' = "demo_host\<lparr>files := (files demo_host)(long_path \<mapsto> [9, 9, 9, 0, 0, 0, 0, 0, 0, 0]),
                       free_space := free_space demo_host - 10\<rparr>"
  let ?full = "demo_host\<lparr>files := (files demo_host)(''disk.img.new'' \<mapsto> []), free_space := 0\<rparr>"
  have len: "length long_path = PATH_MAX - 1"
    by (simp add: long_path_length PATH_MAX_def)
  have saved: "overwrite_and_save demo_sys demo_codec long_path ''new.txt'' 4 demo_image 10 False demo_host =
      (Inr (), [9, 9, 9, 0, 0, 0, 0, 0, 0, 0], ?h')"
    using overwrite_and_save_output [OF input mem rd replaced accepted out opn size room] by simp
  have run: "replace_file 2 demo_sys demo_codec long_path ''new.txt'' (Some ''b_c~Text~'') 1 demo_image 10 False
      demo_host = Some (Inr (), [9, 9, 9, 0, 0, 0, 0, 0, 0, 0], ?h')"
    using demo_find_b_c by (simp add: replace_file_def searched_name_def saved)
  have "files ?h' (long_path @ ''.new'') = files demo_host (long_path @ ''.new'')"
    using long_path_other(1) by simp
  also have "\<dots> = None"
    using long_path_other(2,3) by (simp add: demo_host_def)
  finally have no_suffixed: "files ?h' (long_path @ ''.new'') = None" .
  have taken: "fwrite demo_sys [9, 9, 9, 0, 0, 0, 0, 0, 0, 0] \<lparr>file_path = ''disk.img.new'', pending = []\<rparr> ?full =
      (10, \<lparr>file_path = ''disk.img.new'', pending = [9, 9, 9, 0, 0, 0, 0, 0, 0, 0]\<rparr>, ?full)"
    by (simp add: fwrite_def transmit_def demo_sys_def Let_def)
  have closed: "fclose \<lparr>file_path = ''disk.img.new'', pending = [9, 9, 9, 0, 0, 0, 0, 0, 0, 0]\<rparr> ?full =
      (EOF, ?full)"
    by (simp add: fclose_def transmit_def Let_def)
  have opened: "fopen_wb demo_sys ''disk.img.new'' (demo_host\<lparr>free_space := 0\<rparr>) =
      Some (\<lparr>file_path = ''disk.img.new'', pending = []\<rparr>, ?full)"
    by (simp add: fopen_wb_def demo_sys_def)
  have saved_full: "overwrite_and_save demo_sys demo_codec ''disk.img'' ''new.txt'' 4 demo_image 10 False
      (demo_host\<lparr>free_space := 0\<rparr>) = (Inr (), [9, 9, 9, 0, 0, 0, 0, 0, 0, 0], ?full)"
    using mem rd input
    by (simp add: overwrite_and_save_def Let_def replaced snprintf_def PATH_MAX_def opened taken closed
        del: fun_upd_apply)
  have run_full: "replace_file 2 demo_sys demo_codec ''disk.img'' ''new.txt'' (Some ''b_c~Text~'') 1 demo_image 10
      False (demo_host\<lparr>free_space := 0\<rparr>) = Some (Inr (), [9, 9, 9, 0, 0, 0, 0, 0, 0, 0], ?full)"
    using demo_find_b_c by (simp add: replace_file_def searched_name_def saved_full)
  show ?thesis
    using len run no_suffixed taken closed run_full by (intro conjI)
qed

end
